theory Spec2Isabelle
  imports Main "HOL-Library.Char_ord" "HOL-Library.List_Lexorder"
begin

section \<open>Time model\<close>

text \<open>
  A timezone-aware \<open>datetime\<close> is the instant it denotes, in microseconds on the UTC time
  line, together with its UTC offset in microseconds. Instants are counted from the start of
  proleptic Gregorian ordinal day 0, so that a calendar \<open>date\<close> is its ordinal (the value of
  Python's \<open>date.toordinal()\<close>) and \<open>date + timedelta(days=1)\<close> is the successor.
  Comparison of aware datetimes compares instants; \<open>.date()\<close> reads the local calendar day.
\<close>

record datetime =
  instant :: int
  utcoffset :: int

type_synonym date = int

definition usec_per_sec :: int where
  "usec_per_sec = 1000000"

definition usec_per_day :: int where
  "usec_per_day = 86400000000"

definition dt_lt :: "datetime \<Rightarrow> datetime \<Rightarrow> bool" where
  "dt_lt a b = (instant a < instant b)"

definition dt_le :: "datetime \<Rightarrow> datetime \<Rightarrow> bool" where
  "dt_le a b = (instant a \<le> instant b)"

definition date_of :: "datetime \<Rightarrow> date" where
  "date_of dt = (instant dt + utcoffset dt) div usec_per_day"

text \<open>\<open>datetime(d.year, d.month, d.day, h, mi, s, tzinfo=timezone.utc)\<close>\<close>

definition utc_datetime :: "date \<Rightarrow> int \<Rightarrow> int \<Rightarrow> int \<Rightarrow> datetime" where
  "utc_datetime d h mi s =
     \<lparr>instant = d * usec_per_day + (h * 3600 + mi * 60 + s) * usec_per_sec, utcoffset = 0\<rparr>"

text \<open>\<open>dt + timedelta\<close> keeps the tzinfo of \<open>dt\<close>.\<close>

definition dt_add :: "datetime \<Rightarrow> int \<Rightarrow> datetime" where
  "dt_add dt delta = dt\<lparr>instant := instant dt + delta\<rparr>"



subsection \<open>The proleptic Gregorian calendar\<close>

definition is_leap :: "int \<Rightarrow> bool" where
  "is_leap y = (y mod 4 = 0 \<and> (y mod 100 \<noteq> 0 \<or> y mod 400 = 0))"

definition days_in_month :: "int \<Rightarrow> int \<Rightarrow> int" where
  "days_in_month y m =
     (if m = 2 then (if is_leap y then 29 else 28)
      else if m = 4 \<or> m = 6 \<or> m = 9 \<or> m = 11 then 30 else 31)"

definition days_before_year :: "int \<Rightarrow> int" where
  "days_before_year y = (y - 1) * 365 + (y - 1) div 4 - (y - 1) div 100 + (y - 1) div 400"

fun days_before_month :: "int \<Rightarrow> nat \<Rightarrow> int" where
  "days_before_month y 0 = 0"
| "days_before_month y (Suc 0) = 0"
| "days_before_month y (Suc m) = days_before_month y m + days_in_month y (int m)"

definition ymd_to_ord :: "int \<Rightarrow> int \<Rightarrow> int \<Rightarrow> date" where
  "ymd_to_ord y m d = days_before_year y + days_before_month y (nat m) + d"

text \<open>The constructor \<open>datetime(y, m, d, h, mi, s, us, tzinfo=timezone.utc)\<close>; it raises
  \<open>ValueError\<close> (here \<open>None\<close>) on a field out of range.\<close>

definition make_datetime :: "int \<Rightarrow> int \<Rightarrow> int \<Rightarrow> int \<Rightarrow> int \<Rightarrow> int \<Rightarrow> int \<Rightarrow> datetime option" where
  "make_datetime y m d h mi s us =
     (if 1 \<le> y \<and> y \<le> 9999 \<and> 1 \<le> m \<and> m \<le> 12 \<and> 1 \<le> d \<and> d \<le> days_in_month y m
         \<and> 0 \<le> h \<and> h \<le> 23 \<and> 0 \<le> mi \<and> mi \<le> 59 \<and> 0 \<le> s \<and> s \<le> 59
         \<and> 0 \<le> us \<and> us \<le> 999999
      then Some (dt_add (utc_datetime (ymd_to_ord y m d) h mi s) us)
      else None)"

text \<open>A valid calendar date and time of day in UTC, for writing scenarios.\<close>

definition utc :: "int \<Rightarrow> int \<Rightarrow> int \<Rightarrow> int \<Rightarrow> int \<Rightarrow> int \<Rightarrow> datetime" where
  "utc y m d h mi s = utc_datetime (ymd_to_ord y m d) h mi s"

section \<open>utils.py\<close>


section \<open>paths.py: metadata from file names\<close>

text \<open>
  Strings are lists of 8-bit characters; among these the class \<open>\d\<close> of Python's \<open>re\<close> holds
  the ten ASCII digits only.
\<close>

definition is_digit :: "char \<Rightarrow> bool" where
  "is_digit c = (48 \<le> (of_char c :: nat) \<and> (of_char c :: nat) \<le> 57)"

definition digit_val :: "char \<Rightarrow> int" where
  "digit_val c = int (of_char c) - 48"

text \<open>\<open>int(s)\<close> on a string of digits.\<close>

definition num :: "string \<Rightarrow> int" where
  "num ds = foldl (\<lambda>a c. 10 * a + digit_val c) 0 ds"

text \<open>\<open>os.path.basename\<close>: what follows the last slash.\<close>

definition basename :: "string \<Rightarrow> string" where
  "basename p = rev (takeWhile (\<lambda>c. c \<noteq> CHR ''/'') (rev p))"

text \<open>
  \<open>re.search\<close> tries the pattern at each position from the left and returns the first match;
  the first argument matches the pattern at the head of a string.
\<close>

fun re_search :: "(string \<Rightarrow> 'a option) \<Rightarrow> string \<Rightarrow> 'a option" where
  "re_search m [] = m []"
| "re_search m (c # cs) = (case m (c # cs) of Some g \<Rightarrow> Some g | None \<Rightarrow> re_search m cs)"

text \<open>The pattern \<^verbatim>\<open>_(\d{8}T\d{9})_\<close> at the head of a string, returning group 1.\<close>

definition match_ts9 :: "string \<Rightarrow> string option" where
  "match_ts9 s =
     (if 20 \<le> length s \<and> s ! 0 = CHR ''_'' \<and> list_all is_digit (take 8 (drop 1 s))
         \<and> s ! 9 = CHR ''T'' \<and> list_all is_digit (take 9 (drop 10 s)) \<and> s ! 19 = CHR ''_''
      then Some (take 18 (drop 1 s)) else None)"

text \<open>The pattern \<^verbatim>\<open>_(\d{8}T\d{6})Z?_\<close> at the head of a string, returning group 1.\<close>

definition match_ts6 :: "string \<Rightarrow> string option" where
  "match_ts6 s =
     (if 17 \<le> length s \<and> s ! 0 = CHR ''_'' \<and> list_all is_digit (take 8 (drop 1 s))
         \<and> s ! 9 = CHR ''T'' \<and> list_all is_digit (take 6 (drop 10 s))
         \<and> ((s ! 16 = CHR ''Z'' \<and> 18 \<le> length s \<and> s ! 17 = CHR ''_'') \<or> s ! 16 = CHR ''_'')
      then Some (take 15 (drop 1 s)) else None)"

text \<open>
  \<open>datetime.strptime\<close> compiles its format to a regular expression: \<open>%H\<close> is
  \<^verbatim>\<open>2[0-3]|[0-1]\d|\d\<close>, \<open>%M\<close> is \<^verbatim>\<open>[0-5]\d|\d\<close>, \<open>%S\<close> is \<^verbatim>\<open>6[0-1]|[0-5]\d|\d\<close>: two digits when
  they form a value up to the bound, else one digit.
\<close>

definition take_field :: "int \<Rightarrow> string \<Rightarrow> int \<times> string" where
  "take_field bound ds =
     (if 2 \<le> length ds \<and> num (take 2 ds) \<le> bound then (num (take 2 ds), drop 2 ds)
      else (num (take 1 ds), drop 1 ds))"

text \<open>
  \<open>datetime.strptime(g, "%Y%m%dT%H%M%S%f")\<close> when \<open>with_fraction\<close>, else
  \<open>datetime.strptime(g, "%Y%m%dT%H%M%S")\<close>, followed by \<open>.replace(tzinfo=timezone.utc)\<close>, on a
  group \<open>g\<close> of eight digits, \<open>T\<close> and digits, as the two patterns above capture it;
  \<open>None\<close> is \<open>ValueError\<close>. With eight digits before \<open>T\<close>, \<open>%m\<close> and \<open>%d\<close> can only match two
  digits each, 01 to 12 and 01 to 31. \<open>%f\<close> takes one to six digits, padded with zeros on the
  right; data left unconverted is an error.
\<close>

definition strptime_utc :: "bool \<Rightarrow> string \<Rightarrow> datetime option" where
  "strptime_utc with_fraction g =
     (let y = num (take 4 g); mo = num (take 2 (drop 4 g)); d = num (take 2 (drop 6 g));
          (h, r1) = take_field 23 (drop 9 g);
          (mi, r2) = take_field 59 r1;
          (sec, r3) = take_field 61 r2
      in if \<not> (1 \<le> mo \<and> mo \<le> 12 \<and> 1 \<le> d \<and> d \<le> 31) then None
         else if with_fraction then
           (if r3 = [] \<or> 6 < length r3 then None
            else make_datetime y mo d h mi sec (num (r3 @ replicate (6 - length r3) CHR ''0'')))
         else (if r3 \<noteq> [] then None else make_datetime y mo d h mi sec 0))"

definition extract_sensing_time :: "string \<Rightarrow> datetime option" where
  "extract_sensing_time filename0 =
     (let filename = basename filename0;
          first = (case re_search match_ts9 filename of
                     Some g \<Rightarrow> strptime_utc True g
                   | None \<Rightarrow> None)
      in case first of
           Some dt \<Rightarrow> Some dt
         | None \<Rightarrow>
             (case re_search match_ts6 filename of
                Some g \<Rightarrow> strptime_utc False g
              | None \<Rightarrow> None))"

text \<open>
  \<open>filter_by_sensing_time(items, start, end)\<close>; the loop appends to \<open>result\<close>.
\<close>

fun filter_by_sensing_time_loop ::
  "datetime option \<Rightarrow> datetime option \<Rightarrow> string list \<Rightarrow> string list \<Rightarrow> string list" where
  "filter_by_sensing_time_loop start end [] result = result"
| "filter_by_sensing_time_loop start end (item # items) result =
     (case extract_sensing_time item of
        None \<Rightarrow> filter_by_sensing_time_loop start end items result
      | Some sensing_time \<Rightarrow>
          if (case start of None \<Rightarrow> True | Some s \<Rightarrow> dt_le s sensing_time)
             \<and> (case end of None \<Rightarrow> True | Some e \<Rightarrow> dt_le sensing_time e)
          then filter_by_sensing_time_loop start end items (result @ [item])
          else filter_by_sensing_time_loop start end items result)"

definition filter_by_sensing_time ::
  "string list \<Rightarrow> datetime option \<Rightarrow> datetime option \<Rightarrow> string list" where
  "filter_by_sensing_time items start end =
     (if start = None \<and> end = None then items
      else filter_by_sensing_time_loop start end items [])"

text \<open>An item's extracted sensing time lies within the given bounds, a missing bound being
  no bound.\<close>

definition in_bounds :: "datetime option \<Rightarrow> datetime option \<Rightarrow> string \<Rightarrow> bool" where
  "in_bounds start end item =
     (case extract_sensing_time item of
        None \<Rightarrow> False
      | Some t \<Rightarrow> (case start of None \<Rightarrow> True | Some s \<Rightarrow> instant s \<le> instant t)
                  \<and> (case end of None \<Rightarrow> True | Some e \<Rightarrow> instant t \<le> instant e))"

subsection \<open>Product type, baseline and local path\<close>

definition is_upper :: "char \<Rightarrow> bool" where
  "is_upper c = (65 \<le> (of_char c :: nat) \<and> (of_char c :: nat) \<le> 90)"

definition is_lower :: "char \<Rightarrow> bool" where
  "is_lower c = (97 \<le> (of_char c :: nat) \<and> (of_char c :: nat) \<le> 122)"

text \<open>A literal letter under \<open>re.IGNORECASE\<close>.\<close>

definition eq_nocase :: "char \<Rightarrow> char \<Rightarrow> bool" where
  "eq_nocase c u = (c = u \<or> (of_char c :: nat) = of_char u + 32)"

definition starts_with :: "string \<Rightarrow> string \<Rightarrow> bool" where
  "starts_with s prefix = (take (length prefix) s = prefix)"

text \<open>The pattern \<^verbatim>\<open>/ALD_[UC]_N_\d[AB]/([A-Za-z0-9]{4})/\d{4}/\<close> under \<open>re.IGNORECASE\<close> at the head
  of a string, returning group 1.\<close>

definition match_aeolus_path :: "string \<Rightarrow> string option" where
  "match_aeolus_path s =
     (if 22 \<le> length s \<and> s ! 0 = CHR ''/'' \<and> eq_nocase (s ! 1) CHR ''A''
         \<and> eq_nocase (s ! 2) CHR ''L'' \<and> eq_nocase (s ! 3) CHR ''D'' \<and> s ! 4 = CHR ''_''
         \<and> (eq_nocase (s ! 5) CHR ''U'' \<or> eq_nocase (s ! 5) CHR ''C'') \<and> s ! 6 = CHR ''_''
         \<and> eq_nocase (s ! 7) CHR ''N'' \<and> s ! 8 = CHR ''_'' \<and> is_digit (s ! 9)
         \<and> (eq_nocase (s ! 10) CHR ''A'' \<or> eq_nocase (s ! 10) CHR ''B'') \<and> s ! 11 = CHR ''/''
         \<and> list_all (\<lambda>c. is_upper c \<or> is_lower c \<or> is_digit c) (take 4 (drop 12 s))
         \<and> s ! 16 = CHR ''/'' \<and> list_all is_digit (take 4 (drop 17 s)) \<and> s ! 21 = CHR ''/''
      then Some (take 4 (drop 12 s)) else None)"

text \<open>
  \<open>extract_baseline(uri)\<close>: the pattern \<^verbatim>\<open>^ECA_[A-Z]{2}([A-Z]{2})_\<close> on the base name, then, for
  a base name starting with \<open>AE_\<close>, the path pattern searched in the whole \<open>uri\<close>.
\<close>

definition extract_baseline :: "string \<Rightarrow> string option" where
  "extract_baseline uri =
     (let filename = basename uri
      in if 9 \<le> length filename \<and> starts_with filename ''ECA_''
            \<and> list_all is_upper (take 4 (drop 4 filename)) \<and> filename ! 8 = CHR ''_''
         then Some (take 2 (drop 6 filename))
         else if starts_with filename ''AE_'' then re_search match_aeolus_path uri
         else None)"

text \<open>The pattern \<^verbatim>\<open>_\d{8}T\d{6}Z_\<close> at the head of a string.\<close>

definition match_ts6z :: "string \<Rightarrow> bool" where
  "match_ts6z s =
     (18 \<le> length s \<and> s ! 0 = CHR ''_'' \<and> list_all is_digit (take 8 (drop 1 s))
      \<and> s ! 9 = CHR ''T'' \<and> list_all is_digit (take 6 (drop 10 s))
      \<and> s ! 16 = CHR ''Z'' \<and> s ! 17 = CHR ''_'')"

text \<open>
  The lazy group \<^verbatim>\<open>(.+?)\<close> followed by a tail: the shortest non-empty prefix free of
  \<^verbatim>\<open>\n\<close> after which the tail matches.
\<close>

fun lazy_group :: "(string \<Rightarrow> bool) \<Rightarrow> string \<Rightarrow> string \<Rightarrow> string option" where
  "lazy_group tail acc [] = (if acc \<noteq> [] \<and> tail [] then Some acc else None)"
| "lazy_group tail acc (c # cs) =
     (if acc \<noteq> [] \<and> tail (c # cs) then Some acc
      else if c = CHR 0x0A then None
      else lazy_group tail (acc @ [c]) cs)"

text \<open>
  \<open>extract_product(filename)\<close>: \<^verbatim>\<open>^ECA_[A-Z]{4}_(.+?)_\d{8}T\d{6}Z_\<close>, then
  \<^verbatim>\<open>^AE_[A-Z]{4}_(ALD_[UC]_N_\d[AB])_\d{8}T\d{9}_\<close>.
\<close>

definition extract_product :: "string \<Rightarrow> string option" where
  "extract_product filename0 =
     (let filename = basename filename0;
          eca = (if 9 \<le> length filename \<and> starts_with filename ''ECA_''
                    \<and> list_all is_upper (take 4 (drop 4 filename)) \<and> filename ! 8 = CHR ''_''
                 then lazy_group match_ts6z [] (drop 9 filename) else None)
      in case eca of
           Some g \<Rightarrow> Some g
         | None \<Rightarrow>
             if 38 \<le> length filename \<and> starts_with filename ''AE_''
                \<and> list_all is_upper (take 4 (drop 3 filename)) \<and> filename ! 7 = CHR ''_''
                \<and> take 4 (drop 8 filename) = ''ALD_''
                \<and> (filename ! 12 = CHR ''U'' \<or> filename ! 12 = CHR ''C'')
                \<and> take 3 (drop 13 filename) = ''_N_'' \<and> is_digit (filename ! 16)
                \<and> (filename ! 17 = CHR ''A'' \<or> filename ! 17 = CHR ''B'')
                \<and> match_ts9 (drop 18 filename) \<noteq> None
             then Some (take 10 (drop 8 filename))
             else None)"

text \<open>\<open>date.fromordinal\<close>, as the standard library computes year, month and day.\<close>

definition ord2ymd :: "int \<Rightarrow> int \<times> int \<times> int" where
  "ord2ymd n0 =
     (let n = n0 - 1;
          n400 = n div 146097; n = n mod 146097;
          n100 = n div 36524; n = n mod 36524;
          n4 = n div 1461; n = n mod 1461;
          n1 = n div 365; n = n mod 365;
          year = n400 * 400 + 1 + n100 * 100 + n4 * 4 + n1
      in if n1 = 4 \<or> n100 = 4 then (year - 1, 12, 31)
         else
           (let leapyear = (n1 = 3 \<and> (n4 \<noteq> 24 \<or> n100 = 3));
                month = (n + 50) div 32;
                preceding = days_before_month 1 (nat month)
                            + (if month > 2 \<and> leapyear then 1 else 0)
            in if preceding > n
               then (let month1 = month - 1;
                         preceding1 = preceding - (days_in_month 1 month1
                                        + (if month1 = 2 \<and> leapyear then 1 else 0))
                     in (year, month1, n - preceding1 + 1))
               else (year, month, n - preceding + 1)))"

definition digit_char :: "int \<Rightarrow> char" where
  "digit_char d = char_of (48 + nat (d mod 10))"

text \<open>\<^verbatim>\<open>f"{n:02d}"\<close> and \<^verbatim>\<open>f"{n:04d}"\<close> for the day, month and year of a date.\<close>

definition pad2 :: "int \<Rightarrow> string" where
  "pad2 n = [digit_char (n div 10), digit_char n]"

definition pad4 :: "int \<Rightarrow> string" where
  "pad4 n = [digit_char (n div 1000), digit_char (n div 100), digit_char (n div 10), digit_char n]"

datatype error = TypeError

text \<open>
  A \<open>Path\<close> is its string and \<open>a / b\<close> joins with a slash; \<open>a / None\<close> raises \<open>TypeError\<close>.
\<close>

definition path_join :: "string \<Rightarrow> string option \<Rightarrow> error + string" where
  "path_join a b = (case b of None \<Rightarrow> Inl TypeError | Some seg \<Rightarrow> Inr (a @ ''/'' @ seg))"

definition generate_data_path ::
  "string \<Rightarrow> string \<Rightarrow> string \<Rightarrow> string option \<Rightarrow> string option \<Rightarrow> datetime \<Rightarrow> string
     \<Rightarrow> error + string" where
  "generate_data_path data_dir mission collection product_type baseline dt filename =
     (case ord2ymd (date_of dt) of (y, m, d) \<Rightarrow>
        (case path_join data_dir (Some mission) of Inl e \<Rightarrow> Inl e | Inr p1 \<Rightarrow>
         case path_join p1 (Some collection) of Inl e \<Rightarrow> Inl e | Inr p2 \<Rightarrow>
         case path_join p2 product_type of Inl e \<Rightarrow> Inl e | Inr p3 \<Rightarrow>
         case path_join p3 baseline of Inl e \<Rightarrow> Inl e | Inr p4 \<Rightarrow>
         case path_join p4 (Some (pad4 y)) of Inl e \<Rightarrow> Inl e | Inr p5 \<Rightarrow>
         case path_join p5 (Some (pad2 m)) of Inl e \<Rightarrow> Inl e | Inr p6 \<Rightarrow>
         case path_join p6 (Some (pad2 d)) of Inl e \<Rightarrow> Inl e | Inr base \<Rightarrow>
         path_join base (Some filename)))"

text \<open>
  \<open>url_to_local_path(url, data_dir, mission, collection)\<close>. \<open>extract_info\<close> strips the
  directory first and hands the base name to every extractor, \<open>extract_baseline\<close> included.
\<close>

definition url_to_local_path :: "string \<Rightarrow> string \<Rightarrow> string \<Rightarrow> string \<Rightarrow> error + string option" where
  "url_to_local_path url data_dir mission collection =
     (let filename = basename url;
          info_baseline = extract_baseline filename;
          info_product_type = extract_product filename;
          info_sensing_time = extract_sensing_time filename
      in case info_sensing_time of
           None \<Rightarrow> Inr None
         | Some dt \<Rightarrow>
             (case generate_data_path data_dir mission collection info_product_type
                     info_baseline dt filename of
                Inl e \<Rightarrow> Inl e
              | Inr p \<Rightarrow> Inr (Some p)))"

section \<open>registry.py: record files\<close>

text \<open>
  A file is its text; a file that does not exist is \<open>None\<close>. Files opened in text mode are
  read with universal newlines: a line ends at \<^verbatim>\<open>\n\<close>, \<^verbatim>\<open>\r\n\<close> or \<^verbatim>\<open>\r\<close>. Both readers below
  strip every line at once, so the lines are given without their terminator.
\<close>

fun file_lines_from :: "string \<Rightarrow> string \<Rightarrow> string list" where
  "file_lines_from cur [] = (if cur = [] then [] else [cur])"
| "file_lines_from cur (c # cs) =
     (if c = CHR 0x0A then cur # file_lines_from [] cs
      else if c = CHR 0x0D then
        (case cs of
           [] \<Rightarrow> [cur]
         | d # ds \<Rightarrow> if d = CHR 0x0A then cur # file_lines_from [] ds
                    else cur # file_lines_from [] cs)
      else file_lines_from (cur @ [c]) cs)"

definition file_lines :: "string \<Rightarrow> string list" where
  "file_lines content = file_lines_from [] content"

text \<open>The characters that \<open>str.strip()\<close> removes, among the 8-bit ones.\<close>

definition is_space :: "char \<Rightarrow> bool" where
  "is_space c = ((of_char c :: nat) \<in> {9, 10, 11, 12, 13, 28, 29, 30, 31, 32, 133, 160})"

definition py_strip :: "string \<Rightarrow> string" where
  "py_strip s = rev (dropWhile is_space (rev (dropWhile is_space s)))"

text \<open>\<open>not line or line.startswith("#")\<close>\<close>

definition skipped :: "string \<Rightarrow> bool" where
  "skipped line = (case line of [] \<Rightarrow> True | c # cs \<Rightarrow> c = CHR ''#'')"

text \<open>\<open>parts = line.split("|", 1)\<close>, then \<open>parts[0]\<close> and \<open>parts[1] if len(parts) > 1 else ""\<close>.\<close>

definition split_pair :: "string \<Rightarrow> string \<times> string" where
  "split_pair line =
     (takeWhile (\<lambda>c. c \<noteq> CHR ''|'') line,
      case dropWhile (\<lambda>c. c \<noteq> CHR ''|'') line of [] \<Rightarrow> [] | c # rest \<Rightarrow> rest)"

fun read_pairs_loop :: "string list \<Rightarrow> (string \<times> string) list \<Rightarrow> (string \<times> string) list" where
  "read_pairs_loop [] results = results"
| "read_pairs_loop (line0 # rest) results =
     (let line = py_strip line0
      in if skipped line then read_pairs_loop rest results
         else read_pairs_loop rest (results @ [split_pair line]))"

definition read_pairs_file :: "string option \<Rightarrow> (string \<times> string) list" where
  "read_pairs_file file =
     (case file of
        None \<Rightarrow> []
      | Some content \<Rightarrow> read_pairs_loop (file_lines content) [])"

text \<open>\<open>Registry.read_pairs\<close> delegates to \<open>read_pairs_file\<close>.\<close>

definition read_pairs :: "string option \<Rightarrow> (string \<times> string) list" where
  "read_pairs file = read_pairs_file file"

fun count_lines_loop :: "string list \<Rightarrow> int \<Rightarrow> int" where
  "count_lines_loop [] count = count"
| "count_lines_loop (line0 # rest) count =
     (let line = py_strip line0
      in if line \<noteq> [] \<and> \<not> (case line of [] \<Rightarrow> False | c # cs \<Rightarrow> c = CHR ''#'')
         then count_lines_loop rest (count + 1)
         else count_lines_loop rest count)"

definition count_lines :: "string option \<Rightarrow> int" where
  "count_lines file =
     (case file of
        None \<Rightarrow> 0
      | Some content \<Rightarrow> count_lines_loop (file_lines content) 0)"

subsection \<open>The registry directory\<close>

text \<open>
  The registry of one collection, product and baseline holds one file per kind and sensing
  date, \<^verbatim>\<open>{kind}/.../{year}/{prefix}{YYYYMMDD}.txt\<close>, and \<^verbatim>\<open>errors.txt\<close>. A daily file is named here
  by its kind and date, which \<open>extract_file_date\<close> reads back from the name. The state is the
  content of the files that exist, in an association list, and the log of the operations done
  on them; directories are not part of it.
\<close>

datatype kind = Url | Dwl | Mrk

datatype path = Daily kind date | Errors

datatype fs_op = Touched path | Rewritten path | Appended path

record fs =
  files :: "(path \<times> string) list"
  ops :: "fs_op list"

text \<open>A dictionary with insertion order: assignment to a key keeps the key's place.\<close>

fun put :: "'k \<Rightarrow> 'v \<Rightarrow> ('k \<times> 'v) list \<Rightarrow> ('k \<times> 'v) list" where
  "put k v [] = [(k, v)]"
| "put k v ((k', v') # rest) = (if k = k' then (k, v) # rest else (k', v') # put k v rest)"

definition fs_read :: "fs \<Rightarrow> path \<Rightarrow> string option" where
  "fs_read st p = map_of (files st) p"

text \<open>\<open>open(file_path, "w")\<close> with the text written.\<close>

definition fs_write :: "path \<Rightarrow> string \<Rightarrow> fs \<Rightarrow> fs" where
  "fs_write p content st = st\<lparr>files := put p content (files st), ops := ops st @ [Rewritten p]\<rparr>"

text \<open>\<open>Registry.append_line(file_path, line)\<close>: \<open>open(file_path, "a")\<close>, \<open>f.write(line + "\n")\<close>.\<close>

definition append_line :: "path \<Rightarrow> string \<Rightarrow> fs \<Rightarrow> fs" where
  "append_line p line st =
     st\<lparr>files := put p ((case fs_read st p of None \<Rightarrow> [] | Some c \<Rightarrow> c) @ line @ [CHR 0x0A])
                    (files st),
        ops := ops st @ [Appended p]\<rparr>"

text \<open>\<open>Registry.touch\<close>: only a file that exists is touched.\<close>

definition touch :: "path \<Rightarrow> fs \<Rightarrow> fs" where
  "touch p st = (if fs_read st p \<noteq> None then st\<lparr>ops := ops st @ [Touched p]\<rparr> else st)"

fun daily_date :: "kind \<Rightarrow> path \<Rightarrow> date option" where
  "daily_date k (Daily k' d) = (if k = k' then Some d else None)"
| "daily_date k Errors = None"

text \<open>\<open>list_url_files\<close>, \<open>list_dwl_files\<close>, \<open>list_mrk_files\<close>: the files of a kind, sorted.\<close>

definition list_files :: "kind \<Rightarrow> fs \<Rightarrow> date list" where
  "list_files k st = sort (List.map_filter (daily_date k) (map fst (files st)))"

text \<open>
  \<open>Registry.read_daily_pairs(files, prefix, start_date, end_date)\<close>; a date object is always
  truthy, so the two tests on the bounds are tests for \<open>None\<close>.
\<close>

fun read_daily_pairs ::
  "fs \<Rightarrow> kind \<Rightarrow> date list \<Rightarrow> date option \<Rightarrow> date option
     \<Rightarrow> (string \<times> string \<times> date option) list \<Rightarrow> (string \<times> string \<times> date option) list" where
  "read_daily_pairs st k [] start_date end_date results = results"
| "read_daily_pairs st k (f # rest) start_date end_date results =
     (if (case start_date of None \<Rightarrow> False | Some sd \<Rightarrow> f < sd)
      then read_daily_pairs st k rest start_date end_date results
      else if (case end_date of None \<Rightarrow> False | Some ed \<Rightarrow> f > ed)
      then read_daily_pairs st k rest start_date end_date results
      else read_daily_pairs st k rest start_date end_date
             (results @ map (\<lambda>(first, second). (first, second, Some f))
                          (read_pairs (fs_read st (Daily k f)))))"

section \<open>tracker.py\<close>

record tracker =
  data_dir :: "string option"
  mission :: string
  collection :: string

definition to_date_range :: "datetime option \<Rightarrow> datetime option \<Rightarrow> date option \<times> date option" where
  "to_date_range start end = (map_option date_of start, map_option date_of end)"

text \<open>
  \<open>StateTracker.mark_downloaded(url, local_path)\<close>: the value returned or the exception
  raised, and the registry afterwards. A \<open>Path\<close> is always truthy.
\<close>

definition mark_downloaded :: "tracker \<Rightarrow> string \<Rightarrow> string option \<Rightarrow> fs \<Rightarrow> (error + bool) \<times> fs" where
  "mark_downloaded tr url local_path st =
     (case extract_sensing_time url of
        None \<Rightarrow> (Inr False, st)
      | Some dt \<Rightarrow>
          (let sensing_date = date_of dt;
               path_str =
                 (case local_path of
                    Some p \<Rightarrow> Inr p
                  | None \<Rightarrow>
                      (case data_dir tr of
                         Some dir \<Rightarrow>
                           (case url_to_local_path url dir (mission tr) (collection tr) of
                              Inl e \<Rightarrow> Inl e
                            | Inr None \<Rightarrow> Inr []
                            | Inr (Some computed) \<Rightarrow> Inr computed)
                       | None \<Rightarrow> Inr []))
           in case path_str of
                Inl e \<Rightarrow> (Inl e, st)
              | Inr ps \<Rightarrow> (Inr True, append_line (Daily Dwl sensing_date) (url @ ''|'' @ ps) st)))"

text \<open>
  \<open>load_urls_with_paths(start, end)\<close>; every url of \<open>filtered_urls\<close> is a key of
  \<open>url_to_pair\<close>, whose value is the pair read last for that url.
\<close>

definition load_urls_with_paths ::
  "fs \<Rightarrow> datetime option \<Rightarrow> datetime option \<Rightarrow> (string \<times> string) list" where
  "load_urls_with_paths st start end =
     (case to_date_range start end of (start_date, end_date) \<Rightarrow>
        (let pairs = read_daily_pairs st Url (list_files Url st) start_date end_date [];
             results = map (\<lambda>(url, path, d). (url, path)) pairs;
             url_to_pair = fold (\<lambda>(url, path) dict. put url (url, path) dict) results [];
             filtered_urls = filter_by_sensing_time (map fst url_to_pair) start end
         in List.map_filter (map_of url_to_pair) filtered_urls))"

definition get_downloaded_urls :: "fs \<Rightarrow> datetime option \<Rightarrow> datetime option \<Rightarrow> string set" where
  "get_downloaded_urls st start end =
     (case to_date_range start end of (start_date, end_date) \<Rightarrow>
        (let pairs = read_daily_pairs st Dwl (list_files Dwl st) start_date end_date [];
             urls = map (\<lambda>(url, path, d). url) pairs
         in set (filter_by_sensing_time urls start end)))"

definition get_pending_downloads :: "fs \<Rightarrow> datetime option \<Rightarrow> datetime option \<Rightarrow> string set" where
  "get_pending_downloads st start end =
     (let all_urls = set (map fst (load_urls_with_paths st start end));
          downloaded = get_downloaded_urls st start end
      in all_urls - downloaded)"

text \<open>
  A caller that marks the urls of a list one after the other, each with the local path the
  caller chooses for it; an exception ends the run.
\<close>

fun mark_each :: "tracker \<Rightarrow> (string \<Rightarrow> string option) \<Rightarrow> string list \<Rightarrow> fs \<Rightarrow> error + fs" where
  "mark_each tr local_path_of [] st = Inr st"
| "mark_each tr local_path_of (url # rest) st =
     (case mark_downloaded tr url (local_path_of url) st of
        (Inl e, st') \<Rightarrow> Inl e
      | (Inr ok, st') \<Rightarrow> mark_each tr local_path_of rest st')"

subsection \<open>Registry invariants and recorded sets\<close>

text \<open>
  A key that is read back as it was written: not empty, starting with neither white space nor
  \<open>#\<close>, and holding no separator and no line break.
\<close>

definition clean_key :: "string \<Rightarrow> bool" where
  "clean_key u = (u \<noteq> [] \<and> \<not> is_space (hd u) \<and> hd u \<noteq> CHR ''#''
     \<and> CHR ''|'' \<notin> set u \<and> CHR 0x0A \<notin> set u \<and> CHR 0x0D \<notin> set u)"

text \<open>A file date passes the two tests of \<open>read_daily_pairs\<close>.\<close>

definition in_dates :: "date option \<Rightarrow> date option \<Rightarrow> date \<Rightarrow> bool" where
  "in_dates start_date end_date d =
     ((case start_date of None \<Rightarrow> True | Some sd \<Rightarrow> sd \<le> d)
      \<and> (case end_date of None \<Rightarrow> True | Some ed \<Rightarrow> d \<le> ed))"

text \<open>
  Following the spec's words: the urls (first fields) recorded in the files of one kind for a
  window, that is, in the files whose date lies between the dates of the bounds, and, when a
  bound is given, with a sensing time within the bounds.
\<close>

definition recorded :: "kind \<Rightarrow> fs \<Rightarrow> datetime option \<Rightarrow> datetime option \<Rightarrow> string set" where
  "recorded k st start end =
     {u. (\<exists>d p. in_dates (map_option date_of start) (map_option date_of end) d
                \<and> (u, p) \<in> set (read_pairs (fs_read st (Daily k d))))
         \<and> (start = None \<and> end = None \<or> in_bounds start end u)}"

text \<open>Every download file is empty or ends with a line break, as \<open>append_line\<close> leaves it.\<close>

definition dwl_ok :: "fs \<Rightarrow> bool" where
  "dwl_ok st = (\<forall>d c. fs_read st (Daily Dwl d) = Some c \<longrightarrow> c = [] \<or> last c = CHR 0x0A)"

text \<open>Every url of a url file has a sensing time, on the date of the file, as \<open>add_urls\<close> and
  \<open>save_urls\<close> file it.\<close>

definition url_partitioned :: "fs \<Rightarrow> bool" where
  "url_partitioned st =
     (\<forall>d u p. (u, p) \<in> set (read_pairs (fs_read st (Daily Url d)))
        \<longrightarrow> (\<exists>t. extract_sensing_time u = Some t \<and> date_of t = d))"

text \<open>The first fields of the records of a file.\<close>

definition firsts :: "fs \<Rightarrow> path \<Rightarrow> string set" where
  "firsts st q = fst ` set (read_pairs (fs_read st q))"

section \<open>search.py: the search engine\<close>

text \<open>
  An item of the catalogue is its assets, from key to href, in the order of the dictionary. A
  search is what the STAC client gives back: the matched count reported by the server, and the
  items found, of which \<open>search.items()\<close> yields at most \<open>max_items\<close>. The search capability, for
  one collection and one filter on product type and baseline, is a function of the
  \<open>datetime\<close> argument.
\<close>

type_synonym item = "(string \<times> string) list"



text \<open>
  \<open>_extract_enclosures(search, format)\<close> with \<open>format\<close> not \<open>"hdr"\<close>: the asset
  \<open>enclosure_h5\<close>, else the first asset whose key starts with \<open>enclosure\<close>; an empty href is
  falsy and left out.
\<close>

definition enclosure_of :: "item \<Rightarrow> string option" where
  "enclosure_of assets =
     (case map_of assets ''enclosure_h5'' of
        Some href \<Rightarrow> Some href
      | None \<Rightarrow>
          (case find (\<lambda>(key, href). starts_with key ''enclosure'') assets of
             Some (key, href) \<Rightarrow> Some href
           | None \<Rightarrow> None))"

fun extract_enclosures_loop :: "item list \<Rightarrow> string list \<Rightarrow> string list" where
  "extract_enclosures_loop [] urls = urls"
| "extract_enclosures_loop (it # rest) urls =
     (case enclosure_of it of
        None \<Rightarrow> extract_enclosures_loop rest urls
      | Some url \<Rightarrow> if url \<noteq> [] then extract_enclosures_loop rest (urls @ [url])
                    else extract_enclosures_loop rest urls)"










section \<open>search.py: day windows\<close>

text \<open>
  \<open>MaapSearcher._iter_day_ranges(start, end)\<close>. The generator's \<open>while\<close> loop runs over
  \<open>current\<close>, from \<open>start.date()\<close> to \<open>end.date()\<close>; the list holds the windows in the order
  they are yielded.
\<close>

function iter_day_ranges_loop ::
  "datetime \<Rightarrow> datetime \<Rightarrow> date \<Rightarrow> date \<Rightarrow> bool \<Rightarrow> (datetime \<times> datetime) list" where
  "iter_day_ranges_loop start end current end_date is_first =
     (if current \<le> end_date then
        (let day_start = (if is_first then start else utc_datetime current 0 0 0);
             day_end = (if current = end_date then end else utc_datetime current 23 59 59)
         in (if dt_lt day_start day_end then [(day_start, day_end)] else [])
            @ iter_day_ranges_loop start end (current + 1) end_date False)
      else [])"
  by pat_completeness auto
termination
  by (relation "measure (\<lambda>(start, end, current, end_date, is_first). nat (end_date - current + 1))")
    auto

declare iter_day_ranges_loop.simps [simp del]

definition iter_day_ranges :: "datetime \<Rightarrow> datetime \<Rightarrow> (datetime \<times> datetime) list" where
  "iter_day_ranges start end = iter_day_ranges_loop start end (date_of start) (date_of end) True"

text \<open>An instant is covered by a list of windows when it lies in one of them, bounds included.\<close>

definition covers :: "(datetime \<times> datetime) list \<Rightarrow> int \<Rightarrow> bool" where
  "covers ws t = list_ex (\<lambda>(a, b). instant a \<le> t \<and> t \<le> instant b) ws"

text \<open>The window the loop builds for calendar day \<open>c\<close>, before the guard.\<close>

definition day_window :: "datetime \<Rightarrow> datetime \<Rightarrow> date \<Rightarrow> datetime \<times> datetime" where
  "day_window start end c =
     (if c = date_of start then start else utc_datetime c 0 0 0,
      if c = date_of end then end else utc_datetime c 23 59 59)"

section \<open>catalog\_build.py: incremental extension\<close>

text \<open>\<open>BaselineInfo\<close>, with \<open>updated_at\<close> the Zulu string written by \<open>build\<close>.\<close>

record baseline_info =
  time_start :: "datetime option"
  time_end :: "datetime option"
  frame_start :: "string option"
  frame_end :: "string option"
  count :: int
  updated_at :: "string option"

definition time_range :: "baseline_info \<Rightarrow> (datetime \<times> datetime) option" where
  "time_range b =
     (case (time_start b, time_end b) of
        (Some s, Some e) \<Rightarrow> Some (s, e)
      | _ \<Rightarrow> None)"

text \<open>\<open>timedelta(seconds=1)\<close>\<close>

definition one_second :: int where
  "one_second = usec_per_sec"

text \<open>
  An entry of \<open>to_fetch\<close>: \<open>(start, end, updates_start)\<close> with \<open>updates_start\<close> one of
  \<open>True\<close> (before), \<open>False\<close> (after) and \<open>None\<close> (full).
\<close>

type_synonym fetch = "datetime \<times> datetime \<times> bool option"

text \<open>
  The body of the loop over \<open>baselines_to_update\<close> in \<open>CatalogCollectionManager.build\<close>, up
  to the \<open>continue\<close>: the result is \<open>None\<close> when the baseline is skipped, else the list
  \<open>to_fetch\<close>. The two datetimes are the result of \<open>normalize_time_range\<close>, always truthy.
\<close>

definition compute_to_fetch :: "baseline_info option \<Rightarrow> datetime \<Rightarrow> datetime \<Rightarrow> fetch list option" where
  "compute_to_fetch existing effective_start effective_end =
     (let ex_range = (case existing of Some b \<Rightarrow> time_range b | None \<Rightarrow> None)
      in case ex_range of
           Some (t0, t1) \<Rightarrow>
             (let to_fetch1 = (if dt_lt effective_start t0
                               then [(effective_start, dt_add t0 (- one_second), Some True)]
                               else []);
                  to_fetch2 = (if dt_lt t1 effective_end
                               then to_fetch1 @ [(dt_add t1 one_second, effective_end, Some False)]
                               else to_fetch1)
              in if to_fetch2 = [] then None else Some to_fetch2)
         | None \<Rightarrow> Some [(effective_start, effective_end, None)])"

text \<open>
  The searcher and the client are the two parameters \<open>has_any\<close>
  (\<open>searcher.search_has_any_product\<close> for this collection, product and baseline) and
  \<open>get_info\<close> (\<open>client.get_baseline_info\<close>). The state of the fetch loop is the log of the
  windows probed, \<open>new_count\<close> and the four fields of \<open>result\<close>.
\<close>

record fetch_state =
  probed :: "(datetime \<times> datetime) list"
  new_count :: int
  r_time_start :: "datetime option"
  r_time_end :: "datetime option"
  r_frame_start :: "string option"
  r_frame_end :: "string option"

fun fetch_loop ::
  "(datetime \<Rightarrow> datetime \<Rightarrow> bool) \<Rightarrow> (datetime \<Rightarrow> datetime \<Rightarrow> baseline_info option)
     \<Rightarrow> fetch list \<Rightarrow> fetch_state \<Rightarrow> fetch_state" where
  "fetch_loop has_any get_info [] st = st"
| "fetch_loop has_any get_info ((f_start, f_end, updates_start) # rest) st =
     (let st1 = st\<lparr>probed := probed st @ [(f_start, f_end)]\<rparr>
      in if \<not> has_any f_start f_end then fetch_loop has_any get_info rest st1
         else (case get_info f_start f_end of
                 None \<Rightarrow> fetch_loop has_any get_info rest st1
               | Some info \<Rightarrow>
                   (let st2 = st1\<lparr>new_count := new_count st1 + count info\<rparr>;
                        st3 = (if updates_start = None \<or> updates_start = Some True
                               then st2\<lparr>r_time_start := time_start info,
                                        r_frame_start := frame_start info\<rparr>
                               else st2);
                        st4 = (if updates_start = None \<or> updates_start = Some False
                               then st3\<lparr>r_time_end := time_end info,
                                        r_frame_end := frame_end info\<rparr>
                               else st3)
                    in fetch_loop has_any get_info rest st4)))"

text \<open>
  One iteration of the loop over \<open>baselines_to_update\<close>: the entry of the baseline afterwards
  and the windows probed.
\<close>

definition update_baseline ::
  "(datetime \<Rightarrow> datetime \<Rightarrow> bool) \<Rightarrow> (datetime \<Rightarrow> datetime \<Rightarrow> baseline_info option)
     \<Rightarrow> string \<Rightarrow> baseline_info option \<Rightarrow> datetime \<Rightarrow> datetime
     \<Rightarrow> baseline_info option \<times> (datetime \<times> datetime) list" where
  "update_baseline has_any get_info now existing effective_start effective_end =
     (case compute_to_fetch existing effective_start effective_end of
        None \<Rightarrow> (existing, [])
      | Some to_fetch \<Rightarrow>
          (let st0 = \<lparr>probed = [], new_count = 0,
                      r_time_start = (case existing of Some b \<Rightarrow> time_start b | None \<Rightarrow> None),
                      r_time_end = (case existing of Some b \<Rightarrow> time_end b | None \<Rightarrow> None),
                      r_frame_start = (case existing of Some b \<Rightarrow> frame_start b | None \<Rightarrow> None),
                      r_frame_end = (case existing of Some b \<Rightarrow> frame_end b | None \<Rightarrow> None)\<rparr>;
               st = fetch_loop has_any get_info to_fetch st0
           in if new_count st > 0
              then (let total = (case existing of Some b \<Rightarrow> count b | None \<Rightarrow> 0) + new_count st
                    in (Some \<lparr>time_start = r_time_start st, time_end = r_time_end st,
                              frame_start = r_frame_start st, frame_end = r_frame_end st,
                              count = total, updated_at = Some now\<rparr>, probed st))
              else (existing, probed st)))"

text \<open>Two closed windows share no instant.\<close>

definition disjoint_windows :: "datetime \<times> datetime \<Rightarrow> datetime \<times> datetime \<Rightarrow> bool" where
  "disjoint_windows w w' = (dt_lt (snd w) (fst w') \<or> dt_lt (snd w') (fst w))"

section \<open>Results\<close>




subsection \<open>Day windows\<close>

lemma iter_day_ranges_loop_closed:
  "iter_day_ranges_loop start end current end_date is_first =
     filter (\<lambda>(a, b). dt_lt a b)
       (map (\<lambda>c. (if c = current \<and> is_first then start else utc_datetime c 0 0 0,
                  if c = end_date then end else utc_datetime c 23 59 59)) [current..end_date])"
proof (induction start "end" current end_date is_first rule: iter_day_ranges_loop.induct)
  case (1 start "end" current end_date is_first)
  show ?case
  proof (cases "current \<le> end_date")
    case False
    then show ?thesis by (simp add: iter_day_ranges_loop.simps [of _ _ current])
  next
    case True
    have up: "[current..end_date] = current # [current + 1..end_date]"
      using True by (simp add: upto_rec1)
    have m: "map (\<lambda>c. (if c = current \<and> is_first then start else utc_datetime c 0 0 0,
                  if c = end_date then end else utc_datetime c 23 59 59)) [current + 1..end_date]
          = map (\<lambda>c. (if c = current + 1 \<and> False then start else utc_datetime c 0 0 0,
                  if c = end_date then end else utc_datetime c 23 59 59)) [current + 1..end_date]"
      by (rule map_cong) auto
    show ?thesis
      using True "1.IH" [OF True refl refl]
      by (subst iter_day_ranges_loop.simps) (simp add: up m Let_def)
  qed
qed

lemma iter_day_ranges_closed:
  "iter_day_ranges start end =
     filter (\<lambda>(a, b). dt_lt a b) (map (day_window start end) [date_of start..date_of end])"
  unfolding iter_day_ranges_def iter_day_ranges_loop_closed day_window_def
  by (rule arg_cong [where f = "filter _"], rule map_cong) auto

lemma day_lo: "(t div usec_per_day) * usec_per_day \<le> t"
  unfolding usec_per_day_def by presburger

lemma day_hi: "t < (t div usec_per_day + 1) * usec_per_day"
  unfolding usec_per_day_def by presburger

lemma date_le_mono: "(a::int) \<le> b \<Longrightarrow> a div usec_per_day \<le> b div usec_per_day"
  by (simp add: usec_per_day_def zdiv_mono1)

lemma window_in_range:
  assumes u: "utcoffset start = 0" "utcoffset end = 0"
    and c: "date_of start \<le> c" "c \<le> date_of end"
    and w: "day_window start end c = (a, b)"
  shows "dt_le start a \<and> dt_le b end"
proof -
  have s: "instant start < (date_of start + 1) * usec_per_day"
    using day_hi [of "instant start"] u by (simp add: date_of_def)
  have e: "date_of end * usec_per_day \<le> instant end"
    using day_lo [of "instant end"] u by (simp add: date_of_def)
  have 1: "dt_le start a"
  proof (cases "c = date_of start")
    case True then show ?thesis using w by (auto simp: day_window_def dt_le_def)
  next
    case False
    then have "date_of start + 1 \<le> c" using c by simp
    then have "(date_of start + 1) * usec_per_day \<le> c * usec_per_day"
      by (simp add: usec_per_day_def)
    then show ?thesis using w s False
      by (auto simp: day_window_def dt_le_def utc_datetime_def usec_per_sec_def)
  qed
  have 2: "dt_le b end"
  proof (cases "c = date_of end")
    case True then show ?thesis using w by (auto simp: day_window_def dt_le_def)
  next
    case False
    then have "c + 1 \<le> date_of end" using c by simp
    then have "(c + 1) * usec_per_day \<le> date_of end * usec_per_day"
      by (simp add: usec_per_day_def)
    then show ?thesis using w e False
      by (auto simp: day_window_def dt_le_def utc_datetime_def usec_per_sec_def usec_per_day_def algebra_simps)
  qed
  show ?thesis using 1 2 by simp
qed

lemma windows_ordered:
  "sorted_wrt (\<lambda>w w'. dt_lt (snd w) (fst w')) (iter_day_ranges start end)"
proof -
  have "sorted_wrt (\<lambda>c c'. dt_lt (snd (day_window start end c)) (fst (day_window start end c')))
          [date_of start..date_of end]"
  proof (rule sorted_wrt_mono_rel [where P = "(<)"])
    fix c c' assume "c \<in> set [date_of start..date_of end]" "c' \<in> set [date_of start..date_of end]"
      and lt: "c < c'"
    then have r: "date_of start \<le> c" "c' \<le> date_of end" by auto
    have "c + 1 \<le> c'" using lt by simp
    then have "(c + 1) * usec_per_day \<le> c' * usec_per_day" by (simp add: usec_per_day_def)
    then show "dt_lt (snd (day_window start end c)) (fst (day_window start end c'))"
      using r lt by (auto simp: day_window_def dt_lt_def utc_datetime_def usec_per_sec_def usec_per_day_def algebra_simps)
  next
    show "sorted_wrt (<) [date_of start..date_of end]" by (simp add: sorted_wrt_upto)
  qed
  then show ?thesis
    unfolding iter_day_ranges_closed by (intro sorted_wrt_filter) (simp add: sorted_wrt_map)
qed

lemma covers_windows:
  "covers (iter_day_ranges start end) t \<longleftrightarrow>
     (\<exists>c. date_of start \<le> c \<and> c \<le> date_of end
          \<and> dt_lt (fst (day_window start end c)) (snd (day_window start end c))
          \<and> instant (fst (day_window start end c)) \<le> t
          \<and> t \<le> instant (snd (day_window start end c)))"
  unfolding covers_def iter_day_ranges_closed list_ex_iff
  by (auto simp: case_prod_beta)

lemma cover_arith:
  fixes q r d0 rs dN re :: int
  assumes "0 \<le> r" "r < 86400000000" "0 \<le> rs" "rs < 86400000000" "0 \<le> re" "re < 86400000000"
    and "d0 * 86400000000 + rs < dN * 86400000000 + re"
  shows "(\<exists>c. d0 \<le> c \<and> c \<le> dN
          \<and> (if c = d0 then d0 * 86400000000 + rs else c * 86400000000)
              < (if c = dN then dN * 86400000000 + re else c * 86400000000 + 86399000000)
          \<and> (if c = d0 then d0 * 86400000000 + rs else c * 86400000000) \<le> q * 86400000000 + r
          \<and> q * 86400000000 + r \<le> (if c = dN then dN * 86400000000 + re else c * 86400000000 + 86399000000))
     \<longleftrightarrow>
       (d0 * 86400000000 + rs \<le> q * 86400000000 + r \<and> q * 86400000000 + r \<le> dN * 86400000000 + re
        \<and> (q = dN \<or> r \<le> 86399000000)
        \<and> \<not> (d0 < dN \<and> q = d0 \<and> r = rs \<and> r = 86399000000)
        \<and> \<not> (d0 < dN \<and> q = dN \<and> r = re \<and> r = 0))"
    (is "?L \<longleftrightarrow> ?R")
proof
  assume ?L
  then obtain c where c: "d0 \<le> c" "c \<le> dN"
     "(if c = d0 then d0 * 86400000000 + rs else c * 86400000000)
              < (if c = dN then dN * 86400000000 + re else c * 86400000000 + 86399000000)"
     "(if c = d0 then d0 * 86400000000 + rs else c * 86400000000) \<le> q * 86400000000 + r"
     "q * 86400000000 + r \<le> (if c = dN then dN * 86400000000 + re else c * 86400000000 + 86399000000)"
    by blast
  have qc: "q = c" using c assms by (auto split: if_splits)
  show ?R using c assms qc by (auto split: if_splits)
next
  assume R: ?R
  have "d0 \<le> q" "q \<le> dN" using R assms by auto
  then show ?L using R assms by (intro exI [of _ q]) (auto split: if_splits)
qed

lemma split_day:
  obtains q r :: int where "t = q * 86400000000 + r" "0 \<le> r" "r < 86400000000"
    "t div 86400000000 = q" "t mod 86400000000 = r"
proof
  show "t = (t div 86400000000) * 86400000000 + t mod 86400000000" by simp
qed simp_all

lemma covers_char:
  assumes u: "utcoffset start = 0" "utcoffset end = 0" and lt: "dt_lt start end"
  shows "covers (iter_day_ranges start end) t \<longleftrightarrow>
     (instant start \<le> t \<and> t \<le> instant end
      \<and> (t div usec_per_day = date_of end \<or> t mod usec_per_day \<le> 86399000000)
      \<and> \<not> (date_of start < date_of end \<and> t = instant start \<and> t mod usec_per_day = 86399000000)
      \<and> \<not> (date_of start < date_of end \<and> t = instant end \<and> t mod usec_per_day = 0))"
proof -
  define D :: int where "D = 86400000000"
  define q r where "q = t div D" and "r = t mod D"
  define d0 rs where "d0 = instant start div D" and "rs = instant start mod D"
  define dN re where "dN = instant end div D" and "re = instant end mod D"
  have t: "t = q * D + r" and s: "instant start = d0 * D + rs" and e: "instant end = dN * D + re"
    by (simp_all add: q_def r_def d0_def rs_def dN_def re_def)
  have b: "0 \<le> r" "r < D" "0 \<le> rs" "rs < D" "0 \<le> re" "re < D"
    by (simp_all add: r_def rs_def re_def D_def)
  have l: "d0 * D + rs < dN * D + re" using lt s e by (simp add: dt_lt_def)
  have dd: "date_of start = d0" "date_of end = dN"
    using u by (simp_all add: date_of_def d0_def dN_def usec_per_day_def D_def)
  have qq: "(q * D + r) div D = q" "(q * D + r) mod D = r"
    using b by (simp_all add: D_def)
  have ts: "q * D + r = d0 * D + rs \<longleftrightarrow> q = d0 \<and> r = rs"
  proof
    assume h: "q * D + r = d0 * D + rs"
    then have "q = d0" using b unfolding D_def by arith
    then show "q = d0 \<and> r = rs" using h by simp
  qed simp
  have te: "q * D + r = dN * D + re \<longleftrightarrow> q = dN \<and> r = re"
  proof
    assume h: "q * D + r = dN * D + re"
    then have "q = dN" using b unfolding D_def by arith
    then show "q = dN \<and> r = re" using h by simp
  qed simp
  have w: "\<And>c. instant (fst (day_window start end c)) = (if c = d0 then d0 * D + rs else c * D)"
      "\<And>c. instant (snd (day_window start end c)) = (if c = dN then dN * D + re else c * D + 86399000000)"
    using s [unfolded D_def] e [unfolded D_def]
    by (simp_all add: day_window_def dd utc_datetime_def
        usec_per_day_def usec_per_sec_def D_def)
  show ?thesis
    unfolding covers_windows dt_lt_def w dd
    unfolding t s e usec_per_day_def D_def [symmetric] qq ts te
    using cover_arith [of r rs re d0 dN q] b l
    unfolding D_def by simp
qed

lemma first_window:
  assumes u: "utcoffset start = 0" "utcoffset end = 0" and lt: "dt_lt start end"
    and ok: "date_of start = date_of end \<or> instant start mod usec_per_day < 86399000000"
  shows "iter_day_ranges start end \<noteq> [] \<and> fst (hd (iter_day_ranges start end)) = start"
proof -
  have le: "date_of start \<le> date_of end"
    using lt u date_le_mono [of "instant start" "instant end"] by (simp add: date_of_def dt_lt_def)
  have up: "[date_of start..date_of end] = date_of start # [date_of start + 1..date_of end]"
    using le by (simp add: upto_rec1)
  obtain q r where "instant start = q * 86400000000 + r"
    "instant start div 86400000000 = q" "instant start mod 86400000000 = r"
    by (rule split_day [of "instant start"])
  then have "instant start < date_of start * usec_per_day + 86399000000" if "date_of start \<noteq> date_of end"
    using ok that u unfolding date_of_def usec_per_day_def by auto
  then have "dt_lt (fst (day_window start end (date_of start))) (snd (day_window start end (date_of start)))"
    using lt by (auto simp: day_window_def dt_lt_def utc_datetime_def usec_per_sec_def usec_per_day_def)
  then show ?thesis
    unfolding iter_day_ranges_closed up by (simp add: case_prod_beta day_window_def)
qed

lemma last_window:
  assumes u: "utcoffset start = 0" "utcoffset end = 0" and lt: "dt_lt start end"
    and ok: "date_of start = date_of end \<or> 0 < instant end mod usec_per_day"
  shows "iter_day_ranges start end \<noteq> [] \<and> snd (last (iter_day_ranges start end)) = end"
proof -
  have le: "date_of start \<le> date_of end"
    using lt u date_le_mono [of "instant start" "instant end"] by (simp add: date_of_def dt_lt_def)
  have up: "[date_of start..date_of end] = [date_of start..date_of end - 1] @ [date_of end]"
    using le by (simp add: upto_rec2)
  obtain q r where "instant end = q * 86400000000 + r"
    "instant end div 86400000000 = q" "instant end mod 86400000000 = r"
    by (rule split_day [of "instant end"])
  then have "date_of end * usec_per_day < instant end" if "date_of start \<noteq> date_of end"
    using ok that u unfolding date_of_def usec_per_day_def by auto
  then have "dt_lt (fst (day_window start end (date_of end))) (snd (day_window start end (date_of end)))"
    using lt by (auto simp: day_window_def dt_lt_def utc_datetime_def usec_per_sec_def usec_per_day_def)
  then show ?thesis
    unfolding iter_day_ranges_closed up by (simp add: case_prod_beta day_window_def)
qed

text \<open>
  C1 (as stated, refuted): for every start < end the first window begins at the exact instant
  start and the windows cover [start, end]. From 23:59:59 of day 10 to 12:00:00 of day 11 the
  window of day 10 has equal bounds and is dropped by the guard: the only window yielded
  begins at midnight of day 11, and the instant start lies in no window.
\<close>

theorem iter_day_ranges_first_window_counterexample:
  "dt_lt (utc_datetime 10 23 59 59) (utc_datetime 11 12 0 0)
   \<and> iter_day_ranges (utc_datetime 10 23 59 59) (utc_datetime 11 12 0 0)
       = [(utc_datetime 11 0 0 0, utc_datetime 11 12 0 0)]
   \<and> fst (hd (iter_day_ranges (utc_datetime 10 23 59 59) (utc_datetime 11 12 0 0)))
       \<noteq> utc_datetime 10 23 59 59
   \<and> \<not> covers (iter_day_ranges (utc_datetime 10 23 59 59) (utc_datetime 11 12 0 0))
         (instant (utc_datetime 10 23 59 59))"
  by (simp add: iter_day_ranges_closed covers_def day_window_def date_of_def dt_lt_def
      utc_datetime_def usec_per_day_def usec_per_sec_def upto_rec1)

text \<open>
  C1 (amended): for UTC datetimes start < end, the windows yielded are, in order, the windows
  of the calendar days from the day of start to the day of end that pass the guard, where the
  window of a day begins at start on the first day and at 00:00:00 otherwise, and ends at end
  on the last day and at 23:59:59 otherwise. Every window yielded has its start strictly
  before its end and lies within [start, end]; each window ends strictly before the next
  begins. An instant is covered exactly when it lies in [start, end], is not after 23:59:59
  of a day before the end day, is not start itself at 23:59:59 of an earlier day than end,
  and is not end itself at 00:00:00 of a later day than start. The first window begins at
  start unless start is at or after 23:59:59 of an earlier day than end, and the last window
  ends at end unless end is 00:00:00 of a later day than start.
\<close>

theorem iter_day_ranges_coverage:
  assumes "utcoffset start = 0" and "utcoffset end = 0" and "dt_lt start end"
  shows "iter_day_ranges start end
           = filter (\<lambda>(a, b). dt_lt a b) (map (day_window start end) [date_of start..date_of end])
    \<and> (\<forall>w \<in> set (iter_day_ranges start end).
          dt_lt (fst w) (snd w) \<and> dt_le start (fst w) \<and> dt_le (snd w) end)
    \<and> sorted_wrt (\<lambda>w w'. dt_lt (snd w) (fst w')) (iter_day_ranges start end)
    \<and> (\<forall>t. covers (iter_day_ranges start end) t \<longleftrightarrow>
          (instant start \<le> t \<and> t \<le> instant end
           \<and> (t div usec_per_day = date_of end \<or> t mod usec_per_day \<le> 86399000000)
           \<and> \<not> (date_of start < date_of end \<and> t = instant start \<and> t mod usec_per_day = 86399000000)
           \<and> \<not> (date_of start < date_of end \<and> t = instant end \<and> t mod usec_per_day = 0)))
    \<and> (date_of start = date_of end \<or> instant start mod usec_per_day < 86399000000
         \<longrightarrow> iter_day_ranges start end \<noteq> [] \<and> fst (hd (iter_day_ranges start end)) = start)
    \<and> (date_of start = date_of end \<or> 0 < instant end mod usec_per_day
         \<longrightarrow> iter_day_ranges start end \<noteq> [] \<and> snd (last (iter_day_ranges start end)) = end)"
proof -
  have in_range: "dt_lt (fst w) (snd w) \<and> dt_le start (fst w) \<and> dt_le (snd w) end"
    if "w \<in> set (iter_day_ranges start end)" for w
  proof -
    from that obtain c where c: "date_of start \<le> c" "c \<le> date_of end"
      and w: "w = day_window start end c" and g: "dt_lt (fst w) (snd w)"
      unfolding iter_day_ranges_closed by (auto simp: case_prod_beta)
    from window_in_range [OF assms(1,2) c, of "fst w" "snd w"] w g show ?thesis by simp
  qed
  show ?thesis
    using iter_day_ranges_closed [of start "end"] in_range windows_ordered [of start "end"]
      covers_char [OF assms] first_window [OF assms] last_window [OF assms]
    by blast
qed

theorem iter_day_ranges_coverage_witness:
  "utcoffset (utc_datetime 10 6 0 0) = 0 \<and> utcoffset (utc_datetime 12 18 0 0) = 0
   \<and> dt_lt (utc_datetime 10 6 0 0) (utc_datetime 12 18 0 0)
   \<and> iter_day_ranges (utc_datetime 10 6 0 0) (utc_datetime 12 18 0 0)
       = [(utc_datetime 10 6 0 0, utc_datetime 10 23 59 59),
          (utc_datetime 11 0 0 0, utc_datetime 11 23 59 59),
          (utc_datetime 12 0 0 0, utc_datetime 12 18 0 0)]
   \<and> sorted_wrt (\<lambda>w w'. dt_lt (snd w) (fst w'))
        (iter_day_ranges (utc_datetime 10 6 0 0) (utc_datetime 12 18 0 0))
   \<and> covers (iter_day_ranges (utc_datetime 10 6 0 0) (utc_datetime 12 18 0 0))
        (instant (utc_datetime 11 12 0 0))"
proof -
  have h1: "utcoffset (utc_datetime 10 6 0 0) = 0" and h2: "utcoffset (utc_datetime 12 18 0 0) = 0"
    by (simp_all add: utc_datetime_def)
  have h3: "dt_lt (utc_datetime 10 6 0 0) (utc_datetime 12 18 0 0)"
    by (simp add: dt_lt_def utc_datetime_def usec_per_day_def usec_per_sec_def)
  have d: "date_of (utc_datetime 10 6 0 0) = 10" "date_of (utc_datetime 12 18 0 0) = 12"
    by (simp_all add: date_of_def utc_datetime_def usec_per_day_def usec_per_sec_def)
  have l: "iter_day_ranges (utc_datetime 10 6 0 0) (utc_datetime 12 18 0 0)
       = [(utc_datetime 10 6 0 0, utc_datetime 10 23 59 59),
          (utc_datetime 11 0 0 0, utc_datetime 11 23 59 59),
          (utc_datetime 12 0 0 0, utc_datetime 12 18 0 0)]"
    using iter_day_ranges_coverage [OF h1 h2 h3]
    by (simp add: date_of_def day_window_def upto_rec1 dt_lt_def utc_datetime_def usec_per_day_def
        usec_per_sec_def)
  have c: "covers (iter_day_ranges (utc_datetime 10 6 0 0) (utc_datetime 12 18 0 0))
        (instant (utc_datetime 11 12 0 0))"
    unfolding l by (simp add: covers_def utc_datetime_def usec_per_day_def usec_per_sec_def)
  have srt: "sorted_wrt (\<lambda>w w'. dt_lt (snd w) (fst w'))
        (iter_day_ranges (utc_datetime 10 6 0 0) (utc_datetime 12 18 0 0))"
    using iter_day_ranges_coverage [OF h1 h2 h3] by blast
  show ?thesis
    by (intro conjI h1 h2 h3 l c srt)
qed

subsection \<open>Incremental catalog extension\<close>

lemma fetch_loop_probed:
  "probed (fetch_loop has_any get_info fs st) = probed st @ map (\<lambda>(a, b, k). (a, b)) fs"
  by (induction has_any get_info fs st rule: fetch_loop.induct)
     (auto simp: Let_def split: option.splits)

text \<open>
  C4: for a baseline whose entry records the range [t0, t1], \<open>build\<close> computes the window
  [effective_start, t0 - 1 s] exactly when effective_start < t0 and the window
  [t1 + 1 s, effective_end] exactly when effective_end > t1, in this order and no other, so at
  most two; exactly these windows are probed; when neither condition holds the baseline is
  skipped, nothing is probed and its entry is unchanged. Neither window meets [t0, t1], and
  with t0 \<le> t1 the two windows do not meet each other.
\<close>

theorem build_fetch_windows:
  assumes "time_range existing = Some (t0, t1)"
  shows "(case compute_to_fetch (Some existing) effective_start effective_end of
            None \<Rightarrow> \<not> dt_lt effective_start t0 \<and> \<not> dt_lt t1 effective_end
          | Some to_fetch \<Rightarrow>
              to_fetch = (if dt_lt effective_start t0
                          then [(effective_start, dt_add t0 (- one_second), Some True)] else [])
                       @ (if dt_lt t1 effective_end
                          then [(dt_add t1 one_second, effective_end, Some False)] else [])
              \<and> to_fetch \<noteq> [] \<and> length to_fetch \<le> 2)
     \<and> snd (update_baseline has_any get_info now (Some existing) effective_start effective_end)
         = (if dt_lt effective_start t0 then [(effective_start, dt_add t0 (- one_second))] else [])
         @ (if dt_lt t1 effective_end then [(dt_add t1 one_second, effective_end)] else [])
     \<and> (\<not> dt_lt effective_start t0 \<and> \<not> dt_lt t1 effective_end \<longrightarrow>
          update_baseline has_any get_info now (Some existing) effective_start effective_end
            = (Some existing, []))
     \<and> disjoint_windows (effective_start, dt_add t0 (- one_second)) (t0, t1)
     \<and> disjoint_windows (dt_add t1 one_second, effective_end) (t0, t1)
     \<and> (dt_le t0 t1 \<longrightarrow>
          disjoint_windows (effective_start, dt_add t0 (- one_second))
                           (dt_add t1 one_second, effective_end))"
  using assms
  by (auto simp: compute_to_fetch_def update_baseline_def fetch_loop_probed Let_def
      disjoint_windows_def dt_lt_def dt_le_def dt_add_def one_second_def usec_per_sec_def
      split: option.splits)

theorem build_fetch_windows_witness:
  "time_range \<lparr>time_start = Some (utc 2025 6 1 0 0 0), time_end = Some (utc 2025 6 10 0 0 0),
       frame_start = None, frame_end = None, count = 7, updated_at = None\<rparr>
     = Some (utc 2025 6 1 0 0 0, utc 2025 6 10 0 0 0)
   \<and> compute_to_fetch
        (Some \<lparr>time_start = Some (utc 2025 6 1 0 0 0), time_end = Some (utc 2025 6 10 0 0 0),
          frame_start = None, frame_end = None, count = 7, updated_at = None\<rparr>)
        (utc 2025 5 25 0 0 0) (utc 2025 6 20 0 0 0)
     = Some [(utc 2025 5 25 0 0 0, utc 2025 5 31 23 59 59, Some True),
             (utc 2025 6 10 0 0 1, utc 2025 6 20 0 0 0, Some False)]
   \<and> snd (update_baseline (\<lambda>a b. True) (\<lambda>a b. None) ''2025-07-01T00:00:00Z''
        (Some \<lparr>time_start = Some (utc 2025 6 1 0 0 0), time_end = Some (utc 2025 6 10 0 0 0),
          frame_start = None, frame_end = None, count = 7, updated_at = None\<rparr>)
        (utc 2025 5 25 0 0 0) (utc 2025 6 20 0 0 0))
     = [(utc 2025 5 25 0 0 0, utc 2025 5 31 23 59 59),
        (utc 2025 6 10 0 0 1, utc 2025 6 20 0 0 0)]
   \<and> disjoint_windows (utc 2025 5 25 0 0 0, utc 2025 5 31 23 59 59)
        (utc 2025 6 1 0 0 0, utc 2025 6 10 0 0 0)
   \<and> disjoint_windows (utc 2025 6 10 0 0 1, utc 2025 6 20 0 0 0)
        (utc 2025 6 1 0 0 0, utc 2025 6 10 0 0 0)"
proof -
  have h: "time_range \<lparr>time_start = Some (utc 2025 6 1 0 0 0), time_end = Some (utc 2025 6 10 0 0 0),
       frame_start = None, frame_end = None, count = 7, updated_at = None\<rparr>
     = Some (utc 2025 6 1 0 0 0, utc 2025 6 10 0 0 0)"
    by (simp add: time_range_def)
  have d: "ymd_to_ord 2025 5 25 = 739396" "ymd_to_ord 2025 5 31 = 739402"
    "ymd_to_ord 2025 6 1 = 739403" "ymd_to_ord 2025 6 10 = 739412" "ymd_to_ord 2025 6 20 = 739422"
    by (simp_all add: ymd_to_ord_def days_before_year_def eval_nat_numeral days_in_month_def
        is_leap_def)
  show ?thesis
    using h build_fetch_windows [OF h, of "utc 2025 5 25 0 0 0" "utc 2025 6 20 0 0 0"
        "\<lambda>a b. True" "\<lambda>a b. None" "''2025-07-01T00:00:00Z''"]
    by (simp add: utc_def d utc_datetime_def dt_add_def dt_lt_def one_second_def
        usec_per_sec_def usec_per_day_def split: option.splits)
qed

subsection \<open>Filtering by sensing time\<close>

lemma filter_by_sensing_time_loop_filter:
  "filter_by_sensing_time_loop start end items result
     = result @ filter (in_bounds start end) items"
  by (induction items arbitrary: result)
     (auto simp: in_bounds_def dt_le_def split: option.splits)

text \<open>
  C10: with both bounds \<open>None\<close>, \<open>filter_by_sensing_time\<close> returns the input list as it is,
  items without an extractable sensing time included; with at least one bound given, the
  result is the input list restricted, in input order, to the items whose extracted sensing
  time lies within the given inclusive bounds, so that every item without an extractable
  sensing time is dropped.
\<close>

theorem filter_by_sensing_time_spec:
  "filter_by_sensing_time items None None = items
   \<and> (start \<noteq> None \<or> end \<noteq> None \<longrightarrow>
        filter_by_sensing_time items start end = filter (in_bounds start end) items
        \<and> (\<forall>item. extract_sensing_time item = None
               \<longrightarrow> item \<notin> set (filter_by_sensing_time items start end)))"
  by (auto simp: filter_by_sensing_time_def filter_by_sensing_time_loop_filter in_bounds_def)

theorem filter_by_sensing_time_spec_witness:
  "filter_by_sensing_time
      [''ECA_EXBC_BM__RAD_2B_20250908T232505Z_20250909T010458Z_07282E.h5'', ''readme.txt'',
       ''AE_OPER_ALD_U_N_2B_20190430T015241_20190430T041441_0003.DBL'']
      None None
     = [''ECA_EXBC_BM__RAD_2B_20250908T232505Z_20250909T010458Z_07282E.h5'', ''readme.txt'',
        ''AE_OPER_ALD_U_N_2B_20190430T015241_20190430T041441_0003.DBL'']
   \<and> filter_by_sensing_time
      [''ECA_EXBC_BM__RAD_2B_20250908T232505Z_20250909T010458Z_07282E.h5'', ''readme.txt'',
       ''AE_OPER_ALD_U_N_2B_20190430T015241_20190430T041441_0003.DBL'']
      (Some (utc 2025 1 1 0 0 0)) None
     = [''ECA_EXBC_BM__RAD_2B_20250908T232505Z_20250909T010458Z_07282E.h5'']"
proof -
  have a: "filter_by_sensing_time
      [''ECA_EXBC_BM__RAD_2B_20250908T232505Z_20250909T010458Z_07282E.h5'', ''readme.txt'',
       ''AE_OPER_ALD_U_N_2B_20190430T015241_20190430T041441_0003.DBL'']
      (Some (utc 2025 1 1 0 0 0)) None
     = filter (in_bounds (Some (utc 2025 1 1 0 0 0)) None)
      [''ECA_EXBC_BM__RAD_2B_20250908T232505Z_20250909T010458Z_07282E.h5'', ''readme.txt'',
       ''AE_OPER_ALD_U_N_2B_20190430T015241_20190430T041441_0003.DBL'']"
    using filter_by_sensing_time_spec [where start = "Some (utc 2025 1 1 0 0 0)" and ?end = None]
    by simp
  have b: "filter (in_bounds (Some (utc 2025 1 1 0 0 0)) None)
      [''ECA_EXBC_BM__RAD_2B_20250908T232505Z_20250909T010458Z_07282E.h5'', ''readme.txt'',
       ''AE_OPER_ALD_U_N_2B_20190430T015241_20190430T041441_0003.DBL'']
     = [''ECA_EXBC_BM__RAD_2B_20250908T232505Z_20250909T010458Z_07282E.h5'']"
    by code_simp
  show ?thesis
    using a b filter_by_sensing_time_spec [where start = None and ?end = None] by simp
qed

subsection \<open>Counting and reading records\<close>

lemma read_pairs_loop_map:
  "read_pairs_loop ls results
     = results @ map split_pair (filter (\<lambda>l. \<not> skipped l) (map py_strip ls))"
  by (induction ls arbitrary: results) (simp_all add: Let_def)

lemma count_lines_loop_length:
  "count_lines_loop ls n = n + int (length (filter (\<lambda>l. \<not> skipped l) (map py_strip ls)))"
  by (induction ls arbitrary: n) (auto simp: Let_def skipped_def split: list.splits)

text \<open>
  C8: for every file, missing or with any content, \<open>count_lines\<close> returns the number of
  records that \<open>read_pairs\<close> returns; both count the lines that, once stripped, are neither
  empty nor start with \<open>#\<close>, and a missing file gives 0 and the empty list.
\<close>

theorem count_lines_eq_read_pairs:
  "count_lines file = int (length (read_pairs file))
   \<and> count_lines None = 0 \<and> read_pairs None = []
   \<and> read_pairs (Some content)
       = map split_pair (filter (\<lambda>l. \<not> skipped l) (map py_strip (file_lines content)))
   \<and> count_lines (Some content)
       = int (length (filter (\<lambda>l. \<not> skipped l) (map py_strip (file_lines content))))"
  by (simp add: count_lines_def read_pairs_def read_pairs_file_def read_pairs_loop_map
      count_lines_loop_length split: option.splits)

subsection \<open>Marking a download\<close>

lemma mark_downloaded_no_time:
  "extract_sensing_time url = None \<Longrightarrow> mark_downloaded tr url local_path st = (Inr False, st)"
  by (simp add: mark_downloaded_def)

lemma mark_downloaded_with_path:
  "extract_sensing_time url = Some dt \<Longrightarrow>
   mark_downloaded tr url (Some p) st
     = (Inr True, append_line (Daily Dwl (date_of dt)) (url @ ''|'' @ p) st)"
  by (simp add: mark_downloaded_def)

lemma mark_downloaded_no_data_dir:
  "extract_sensing_time url = Some dt \<Longrightarrow> data_dir tr = None \<Longrightarrow>
   mark_downloaded tr url None st
     = (Inr True, append_line (Daily Dwl (date_of dt)) (url @ ''|'') st)"
  by (simp add: mark_downloaded_def)

text \<open>
  C9 (the code at a failing input): the claim says that for every url with an extractable
  sensing time \<open>mark_downloaded\<close> appends one record and returns \<open>True\<close>. For an Aeolus url,
  whose sensing time is extractable, with no local path given and a data directory
  configured, \<open>url_to_local_path\<close> looks for the baseline in the base name, finds none and
  joins a path with \<open>None\<close>: \<open>mark_downloaded\<close> raises \<open>TypeError\<close> and appends nothing.
\<close>

theorem mark_downloaded_aeolus_raises:
  "extract_sensing_time
      ''https://catalog/ALD_U_N_1B/1B16/2023/04/22/AE_OPER_ALD_U_N_1B_20230422T165721033_005543989_027018_0001.DBL''
     = Some (dt_add (utc 2023 4 22 16 57 21) 33000)
   \<and> mark_downloaded \<lparr>data_dir = Some ''/data'', mission = ''Aeolus'', collection = ''AeolusL1BProducts''\<rparr>
      ''https://catalog/ALD_U_N_1B/1B16/2023/04/22/AE_OPER_ALD_U_N_1B_20230422T165721033_005543989_027018_0001.DBL''
      None \<lparr>files = [], ops = []\<rparr>
     = (Inl TypeError, \<lparr>files = [], ops = []\<rparr>)"
  by code_simp

subsection \<open>Existence check\<close>

lemma extract_enclosures_loop_set:
  "set (extract_enclosures_loop its urls)
     = set urls \<union> {url. url \<noteq> [] \<and> (\<exists>it \<in> set its. enclosure_of it = Some url)}"
  by (induction its arbitrary: urls) (auto split: option.splits)




subsection \<open>Pending downloads\<close>

lemma file_lines_from_append:
  "s \<noteq> [] \<Longrightarrow> last s = CHR 0x0A \<Longrightarrow>
   file_lines_from cur (s @ r) = file_lines_from cur s @ file_lines_from [] r"
proof (induction cur s rule: file_lines_from.induct)
  case (1 cur)
  then show ?case by simp
next
  case (2 cur c cs)
  show ?case
  proof (cases cs)
    case Nil
    with 2 show ?thesis by simp
  next
    case (Cons d ds)
    then have l: "last cs = CHR 0x0A" "cs \<noteq> []" using 2 by auto
    show ?thesis
    proof (cases "c = CHR 0x0A")
      case True
      then show ?thesis using 2 l by simp
    next
      case F: False
      show ?thesis
      proof (cases "c = CHR 0x0D")
        case True
        show ?thesis
        proof (cases "d = CHR 0x0A")
          case T2: True
          show ?thesis
          proof (cases ds)
            case Nil
            then show ?thesis using True T2 Cons by simp
          next
            case (Cons e es)
            then have "ds \<noteq> []" "last ds = CHR 0x0A" using l \<open>cs = d # ds\<close> by auto
            then show ?thesis
              using "2.IH"(2) [OF F True \<open>cs = d # ds\<close> T2] True T2 \<open>cs = d # ds\<close> by simp
          qed
        next
          case False
          then show ?thesis
            using "2.IH"(3) [OF F True \<open>cs = d # ds\<close> False] True l \<open>cs = d # ds\<close> by simp
        qed
      next
        case False
        then show ?thesis using "2.IH"(4) [OF F False] F l by simp
      qed
    qed
  qed
qed

lemma file_lines_from_plain:
  "CHR 0x0A \<notin> set a \<Longrightarrow> CHR 0x0D \<notin> set a \<Longrightarrow>
   file_lines_from cur (a @ r) = file_lines_from (cur @ a) r"
  by (induction a arbitrary: cur) auto

lemma file_lines_from_first:
  "\<exists>x more. file_lines_from cur (p @ CHR 0x0A # B) = (cur @ x) # more
     \<and> (p = [] \<longrightarrow> x = [])
     \<and> (\<forall>c r. p = c # r \<and> c \<noteq> CHR 0x0A \<and> c \<noteq> CHR 0x0D \<longrightarrow> (\<exists>x0. x = c # x0))"
proof (induction p arbitrary: cur)
  case Nil
  then show ?case by simp
next
  case (Cons c cs)
  show ?case
  proof (cases "c = CHR 0x0A \<or> c = CHR 0x0D")
    case True
    then show ?thesis by (cases cs) auto
  next
    case False
    from Cons [of "cur @ [c]"] obtain x more where
      "file_lines_from (cur @ [c]) (cs @ CHR 0x0A # B) = ((cur @ [c]) @ x) # more" by blast
    then show ?thesis using False by auto
  qed
qed

lemma read_pairs_Some:
  "read_pairs (Some c) = map split_pair (filter (\<lambda>l. \<not> skipped l) (map py_strip (file_lines c)))"
  by (simp add: read_pairs_def read_pairs_file_def read_pairs_loop_map)

lemma not_space_bar: "\<not> is_space CHR ''|''"
  by (simp add: is_space_def)

lemma strip_keyed_line:
  assumes "u \<noteq> []" "\<not> is_space (hd u)"
  shows "\<exists>x'. py_strip (u @ CHR ''|'' # x) = u @ CHR ''|'' # x'"
proof -
  have 1: "dropWhile is_space (u @ CHR ''|'' # x) = u @ CHR ''|'' # x"
    using assms by (cases u) auto
  have "dropWhile is_space (rev x @ CHR ''|'' # rev u) = dropWhile is_space (rev x) @ CHR ''|'' # rev u"
    by (rule dropWhile_append3) (rule not_space_bar)
  then show ?thesis
    by (simp add: py_strip_def 1)
qed

lemma strip_bare_line:
  assumes "u \<noteq> []" "\<not> is_space (hd u)" "\<not> is_space (last u)"
  shows "py_strip u = u"
proof -
  have 1: "dropWhile is_space u = u" using assms by (cases u) auto
  have "rev u \<noteq> []" "\<not> is_space (hd (rev u))" using assms by (simp_all add: hd_rev)
  then have "dropWhile is_space (rev u) = rev u" by (cases "rev u") auto
  then show ?thesis by (simp add: py_strip_def 1)
qed

lemma split_pair_keyed:
  "CHR ''|'' \<notin> set u \<Longrightarrow> split_pair (u @ CHR ''|'' # x) = (u, x)"
  by (induction u) (auto simp: split_pair_def)

lemma split_pair_bare:
  "CHR ''|'' \<notin> set u \<Longrightarrow> split_pair u = (u, [])"
  by (induction u) (auto simp: split_pair_def)

lemma read_back:
  assumes k: "clean_key u"
    and A: "A = [] \<or> last A = CHR 0x0A"
    and rest: "(rest = [] \<and> \<not> is_space (last u)) \<or> (\<exists>r. rest = CHR ''|'' # r)"
  shows "u \<in> fst ` set (read_pairs (Some (A @ u @ rest @ CHR 0x0A # B)))"
proof -
  have u: "u \<noteq> []" "\<not> is_space (hd u)" "hd u \<noteq> CHR ''#''" "CHR ''|'' \<notin> set u"
    "CHR 0x0A \<notin> set u" "CHR 0x0D \<notin> set u"
    using k by (simp_all add: clean_key_def)
  obtain x more where f: "file_lines_from u (rest @ CHR 0x0A # B) = (u @ x) # more"
    and x0: "rest = [] \<longrightarrow> x = []"
    and x1: "\<forall>c r. rest = c # r \<and> c \<noteq> CHR 0x0A \<and> c \<noteq> CHR 0x0D \<longrightarrow> (\<exists>x0. x = c # x0)"
    using file_lines_from_first [of u rest B] by blast
  have fl: "file_lines_from [] (u @ rest @ CHR 0x0A # B) = (u @ x) # more"
    using file_lines_from_plain [OF u(5,6), of "[]" "rest @ CHR 0x0A # B"] f by simp
  have "\<exists>pre. file_lines (A @ u @ rest @ CHR 0x0A # B) = pre @ (u @ x) # more"
  proof (cases "A = []")
    case True
    then show ?thesis using fl by (auto simp: file_lines_def)
  next
    case False
    then have "last A = CHR 0x0A" using A by simp
    from file_lines_from_append [OF False this, of "[]" "u @ rest @ CHR 0x0A # B"] fl
    show ?thesis by (auto simp: file_lines_def)
  qed
  then obtain pre where pre: "file_lines (A @ u @ rest @ CHR 0x0A # B) = pre @ (u @ x) # more"
    by blast
  have "\<exists>x'. py_strip (u @ x) = u @ x' \<and> split_pair (u @ x') = (u, tl x')"
  proof (cases "rest = []")
    case True
    then have "x = []" "\<not> is_space (last u)" using x0 rest by auto
    then show ?thesis
      using strip_bare_line [OF u(1,2)] split_pair_bare [OF u(4)] by (intro exI [of _ "[]"]) simp
  next
    case False
    then obtain r where "rest = CHR ''|'' # r" using rest by auto
    then obtain x0 where "x = CHR ''|'' # x0" using x1 by auto
    then show ?thesis
      using strip_keyed_line [OF u(1,2), of x0] split_pair_keyed [OF u(4)] by auto
  qed
  then obtain x' where s: "py_strip (u @ x) = u @ x'" and sp: "split_pair (u @ x') = (u, tl x')"
    by blast
  have ns: "\<not> skipped (u @ x')" using u by (cases u) (auto simp: skipped_def)
  have "(u, tl x') \<in> set (read_pairs (Some (A @ u @ rest @ CHR 0x0A # B)))"
    unfolding read_pairs_Some pre using s sp ns by (auto simp: image_iff)
  then show ?thesis by force
qed

lemma file_lines_from_chars:
  "l \<in> set (file_lines_from cur s) \<Longrightarrow> c \<in> set l \<Longrightarrow>
   (c \<in> set cur \<or> c \<in> set s) \<and> (c \<notin> set cur \<longrightarrow> c \<noteq> CHR 0x0A \<and> c \<noteq> CHR 0x0D)"
proof (induction cur s rule: file_lines_from.induct)
  case (1 cur)
  then show ?case by (auto split: if_splits)
next
  case (2 cur c' cs)
  then show ?case
    by (cases cs) (auto split: if_splits)
qed

lemma file_lines_no_newline:
  "l \<in> set (file_lines s) \<Longrightarrow> CHR 0x0A \<notin> set l \<and> CHR 0x0D \<notin> set l"
  using file_lines_from_chars [of l "[]" s] by (auto simp: file_lines_def)

lemma set_py_strip: "set (py_strip l) \<subseteq> set l"
  by (auto simp: py_strip_def dest!: set_dropWhileD)

lemma hd_py_strip: "py_strip l \<noteq> [] \<Longrightarrow> \<not> is_space (hd (py_strip l))"
proof -
  assume ne: "py_strip l \<noteq> []"
  let ?m = "dropWhile is_space l"
  have m: "?m \<noteq> []"
  proof
    assume a: "?m = []"
    have "py_strip l = []" unfolding py_strip_def a by simp
    then show False using ne by simp
  qed
  then have hm: "\<not> is_space (hd ?m)" by (rule hd_dropWhile)
  have "\<exists>t. rev (dropWhile is_space (rev ?m)) = hd ?m # t"
  proof -
    obtain h t where ht: "?m = h # t" using m by (cases ?m) auto
    have "dropWhile is_space (rev t @ [h]) = dropWhile is_space (rev t) @ [h]"
      using hm ht by (simp add: dropWhile_append3)
    then show ?thesis using ht by simp
  qed
  then show ?thesis using hm by (auto simp: py_strip_def)
qed

lemma read_pairs_first_clean:
  assumes "(u, p) \<in> set (read_pairs file)" "u \<noteq> []"
  shows "clean_key u"
proof -
  obtain c where c: "file = Some c"
    using assms by (cases "file") (auto simp: read_pairs_def read_pairs_file_def)
  from assms(1) obtain l where l: "l \<in> set (file_lines c)" "\<not> skipped (py_strip l)"
    "split_pair (py_strip l) = (u, p)"
    unfolding c read_pairs_Some by auto
  let ?s = "py_strip l"
  have u: "u = takeWhile (\<lambda>c. c \<noteq> CHR ''|'') ?s" using l(3) by (simp add: split_pair_def)
  have sub: "set u \<subseteq> set l"
    using set_takeWhileD [of _ "\<lambda>c. c \<noteq> CHR ''|''" ?s] set_py_strip [of l] unfolding u by auto
  have ne: "?s \<noteq> []" using assms(2) u by auto
  have hd: "hd u = hd ?s" using assms(2) unfolding u by (cases ?s) (auto split: if_splits)
  have "\<not> is_space (hd u)" using hd_py_strip [OF ne] hd by simp
  moreover have "hd u \<noteq> CHR ''#''" using l(2) ne hd by (cases ?s) (auto simp: skipped_def)
  moreover have "CHR ''|'' \<notin> set u" unfolding u using set_takeWhileD by fastforce
  moreover have "CHR 0x0A \<notin> set u \<and> CHR 0x0D \<notin> set u"
    using file_lines_no_newline [OF l(1)] sub by auto
  ultimately show ?thesis using assms(2) by (simp add: clean_key_def)
qed

lemma read_pairs_append:
  assumes "A = [] \<or> last A = CHR 0x0A"
  shows "read_pairs (Some (A @ r)) = read_pairs (Some A) @ read_pairs (Some r)"
proof (cases "A = []")
  case True
  then show ?thesis by (simp add: read_pairs_Some file_lines_def)
next
  case False
  then have "last A = CHR 0x0A" using assms by simp
  from file_lines_from_append [OF False this, of "[]" r]
  show ?thesis by (simp add: read_pairs_Some file_lines_def)
qed

lemma extract_sensing_time_Nil: "extract_sensing_time [] = None"
  by (simp add: extract_sensing_time_def basename_def match_ts9_def match_ts6_def)

lemma map_of_put: "map_of (put k v al) = (map_of al)(k \<mapsto> v)"
  by (induction al) (auto simp: fun_eq_iff)

lemma keys_put: "fst ` set (put k v al) = insert k (fst ` set al)"
  by (induction al) (force split: if_splits)+

lemma fs_read_append_line:
  "fs_read (append_line p l st) q
     = (if q = p then Some ((case fs_read st p of None \<Rightarrow> [] | Some c \<Rightarrow> c) @ l @ [CHR 0x0A])
        else fs_read st q)"
  by (simp add: fs_read_def append_line_def map_of_put)

lemma read_pairs_exists:
  "(u, p) \<in> set (read_pairs (fs_read st q)) \<Longrightarrow> q \<in> fst ` set (files st)"
  by (cases "fs_read st q")
     (auto simp: read_pairs_def read_pairs_file_def fs_read_def dest: map_of_SomeD intro: rev_image_eqI)

lemma set_map_filter_eq: "set (List.map_filter f xs) = {y. \<exists>x \<in> set xs. f x = Some y}"
  by (induction xs) (auto simp: map_filter_simps split: option.splits)

lemma set_list_files:
  "set (list_files k st) = {d. Daily k d \<in> fst ` set (files st)}"
proof -
  have "daily_date k q = Some d \<longleftrightarrow> q = Daily k d" for q d
    by (cases q) auto
  then show ?thesis
    by (auto simp: list_files_def set_map_filter_eq image_iff)
qed

lemma set_read_daily_pairs:
  "set (read_daily_pairs st k fs sd ed results)
     = set results \<union> {(a, b, Some f) | a b f. f \<in> set fs \<and> in_dates sd ed f
                         \<and> (a, b) \<in> set (read_pairs (fs_read st (Daily k f)))}"
  by (induction st k fs sd ed results rule: read_daily_pairs.induct)
     (auto simp: in_dates_def split: option.splits)

lemma firsts_read_daily:
  "(\<lambda>(a, b, c). a) ` set (read_daily_pairs st k (list_files k st) sd ed [])
     = {u. \<exists>d p. in_dates sd ed d \<and> (u, p) \<in> set (read_pairs (fs_read st (Daily k d)))}"
  unfolding set_read_daily_pairs set_list_files
  by (auto simp: image_iff dest: read_pairs_exists) (force dest: read_pairs_exists)

lemma set_filter_by_sensing_time:
  "set (filter_by_sensing_time xs start end)
     = {u \<in> set xs. start = None \<and> end = None \<or> in_bounds start end u}"
  by (auto simp: filter_by_sensing_time_def filter_by_sensing_time_loop_filter)

lemma get_downloaded_urls_recorded:
  "get_downloaded_urls st start end = recorded Dwl st start end"
proof -
  have "set (map (\<lambda>(url, path, d). url) xs) = (\<lambda>(a, b, c). a) ` set xs" for xs :: "(string \<times> string \<times> date option) list"
    by simp
  then show ?thesis
    unfolding get_downloaded_urls_def to_date_range_def recorded_def
    by (simp add: set_filter_by_sensing_time firsts_read_daily Let_def del: set_map)
qed

lemma fold_put_inv:
  "(\<forall>k v. map_of d k = Some v \<longrightarrow> fst v = k) \<Longrightarrow>
   (\<forall>k v. map_of (fold (\<lambda>(url, path) dict. put url (url, path) dict) rs d) k = Some v \<longrightarrow> fst v = k)
   \<and> fst ` set (fold (\<lambda>(url, path) dict. put url (url, path) dict) rs d) = fst ` set rs \<union> fst ` set d"
proof (induction rs arbitrary: d)
  case Nil
  then show ?case by simp
next
  case (Cons r rs)
  obtain u p where r: "r = (u, p)" by (cases r)
  have "\<forall>k v. map_of (put u (u, p) d) k = Some v \<longrightarrow> fst v = k"
    using Cons.prems by (auto simp: map_of_put)
  from Cons.IH [OF this] show ?case
    by (auto simp: r keys_put)
qed

lemma discovered_recorded:
  "set (map fst (load_urls_with_paths st start end)) = recorded Url st start end"
proof -
  define pairs where "pairs = read_daily_pairs st Url (list_files Url st)
      (map_option date_of start) (map_option date_of end) []"
  define D where "D = fold (\<lambda>(url, path) dict. put url (url, path) dict)
      (map (\<lambda>(url, path, d). (url, path)) pairs) []"
  define F where "F = filter_by_sensing_time (map fst D) start end"
  have inv: "\<forall>k v. map_of D k = Some v \<longrightarrow> fst v = k"
    and keys: "fst ` set D = fst ` set (map (\<lambda>(url, path, d). (url, path)) pairs)"
    using fold_put_inv [of "[]" "map (\<lambda>(url, path, d). (url, path)) pairs"] by (simp_all add: D_def)
  have k2: "fst ` set D = (\<lambda>(a, b, c). a) ` set pairs"
    unfolding keys by (force simp: image_iff)
  have FD: "set F \<subseteq> fst ` set D" by (auto simp: F_def set_filter_by_sensing_time)
  have "fst ` {y. \<exists>x \<in> set F. map_of D x = Some y} = set F"
  proof (intro set_eqI iffI)
    fix u assume "u \<in> fst ` {y. \<exists>x \<in> set F. map_of D x = Some y}"
    then obtain x v where xv: "x \<in> set F" "map_of D x = Some v" "u = fst v" by auto
    then have "u = x" using inv by simp
    then show "u \<in> set F" using xv by simp
  next
    fix u assume u: "u \<in> set F"
    then have "u \<in> fst ` set D" using FD by auto
    then have "map_of D u \<noteq> None"
      by (simp add: map_of_eq_None_iff)
    then obtain v where v: "map_of D u = Some v"
      by blast
    have fv: "fst v = u" using inv v by blast
    have mem: "v \<in> {y. \<exists>x \<in> set F. map_of D x = Some y}" using u v by blast
    show "u \<in> fst ` {y. \<exists>x \<in> set F. map_of D x = Some y}"
      by (rule image_eqI [where f = fst and x = v, OF fv [symmetric] mem])
  qed
  then have "set (map fst (load_urls_with_paths st start end)) = set F"
    by (simp add: load_urls_with_paths_def to_date_range_def Let_def set_map_filter_eq
        pairs_def [symmetric] D_def [symmetric] F_def [symmetric])
  also have "\<dots> = recorded Url st start end"
    unfolding F_def set_filter_by_sensing_time recorded_def
    by (simp add: k2 pairs_def firsts_read_daily)
  finally show ?thesis .
qed

lemma mark_downloaded_effect:
  "mark_downloaded tr url lp st = (Inr r, st') \<Longrightarrow>
   (extract_sensing_time url = None \<and> st' = st)
   \<or> (\<exists>dt ps. extract_sensing_time url = Some dt
         \<and> st' = append_line (Daily Dwl (date_of dt)) (url @ CHR ''|'' # ps) st)"
  by (auto simp: mark_downloaded_def Let_def split: option.splits sum.splits)

lemma append_dwl:
  assumes ok: "dwl_ok st"
    and st'_def: "st' = append_line (Daily Dwl d) (u @ CHR ''|'' # ps) st"
  shows "dwl_ok st'"
    and "fs_read st' (Daily Url d') = fs_read st (Daily Url d')"
    and "firsts st q \<subseteq> firsts st' q"
    and "clean_key u \<Longrightarrow> u \<in> firsts st' (Daily Dwl d)"
proof -
  define A where "A = (case fs_read st (Daily Dwl d) of None \<Rightarrow> [] | Some c \<Rightarrow> c)"
  have A: "A = [] \<or> last A = CHR 0x0A"
    using ok by (auto simp: A_def dwl_ok_def split: option.splits)
  have new: "fs_read st' (Daily Dwl d) = Some (A @ (u @ CHR ''|'' # ps) @ [CHR 0x0A])"
    by (simp add: st'_def fs_read_append_line A_def)
  have other: "q \<noteq> Daily Dwl d \<Longrightarrow> fs_read st' q = fs_read st q" for q
    by (simp add: st'_def fs_read_append_line)
  show "dwl_ok st'"
    unfolding dwl_ok_def
  proof (intro allI impI)
    fix e c assume c: "fs_read st' (Daily Dwl e) = Some c"
    show "c = [] \<or> last c = CHR 0x0A"
    proof (cases "e = d")
      case True then show ?thesis using c new by auto
    next
      case False then show ?thesis using c other [of "Daily Dwl e"] ok by (auto simp: dwl_ok_def)
    qed
  qed
  show "fs_read st' (Daily Url d') = fs_read st (Daily Url d')" by (simp add: other)
  show "firsts st q \<subseteq> firsts st' q"
  proof (cases "q = Daily Dwl d")
    case False then show ?thesis by (simp add: firsts_def other)
  next
    case True
    have "set (read_pairs (fs_read st q)) \<subseteq> set (read_pairs (Some A))"
      unfolding True A_def
      by (cases "fs_read st (Daily Dwl d)") (auto simp: read_pairs_def read_pairs_file_def)
    then show ?thesis
      unfolding firsts_def True new read_pairs_append [OF A] by auto
  qed
  show "u \<in> firsts st' (Daily Dwl d)" if "clean_key u"
    using read_back [OF that A, of "CHR ''|'' # ps" "[]"]
    by (simp add: firsts_def new)
qed

lemma mark_each_effect:
  assumes "dwl_ok st" "mark_each tr lp us st = Inr st'"
  shows "dwl_ok st' \<and> (\<forall>d. fs_read st' (Daily Url d) = fs_read st (Daily Url d))
    \<and> (\<forall>q. firsts st q \<subseteq> firsts st' q)
    \<and> (\<forall>u \<in> set us. \<forall>dt. clean_key u \<and> extract_sensing_time u = Some dt
          \<longrightarrow> u \<in> firsts st' (Daily Dwl (date_of dt)))"
  using assms
proof (induction us arbitrary: st)
  case Nil
  then show ?case by simp
next
  case (Cons u us)
  from Cons.prems(2) obtain r st1 where m: "mark_downloaded tr u (lp u) st = (Inr r, st1)"
    and rest: "mark_each tr lp us st1 = Inr st'"
    by (auto split: prod.splits sum.splits)
  from mark_downloaded_effect [OF m]
  consider (none) "extract_sensing_time u = None" "st1 = st"
    | (some) dt ps where "extract_sensing_time u = Some dt"
        "st1 = append_line (Daily Dwl (date_of dt)) (u @ CHR ''|'' # ps) st"
    by auto
  then have step: "dwl_ok st1 \<and> (\<forall>d. fs_read st1 (Daily Url d) = fs_read st (Daily Url d))
      \<and> (\<forall>q. firsts st q \<subseteq> firsts st1 q)
      \<and> (\<forall>dt. clean_key u \<and> extract_sensing_time u = Some dt
            \<longrightarrow> u \<in> firsts st1 (Daily Dwl (date_of dt)))"
  proof cases
    case none
    then show ?thesis using Cons.prems(1) by simp
  next
    case some
    show ?thesis
      using append_dwl [OF Cons.prems(1) some(2)] some(1) by simp
  qed
  from Cons.IH [OF _ rest] step
  have ih: "dwl_ok st'" "\<forall>d. fs_read st' (Daily Url d) = fs_read st1 (Daily Url d)"
    "\<forall>q. firsts st1 q \<subseteq> firsts st' q"
    "\<forall>u \<in> set us. \<forall>dt. clean_key u \<and> extract_sensing_time u = Some dt
          \<longrightarrow> u \<in> firsts st' (Daily Dwl (date_of dt))"
    by auto
  show ?case using step ih by (auto 4 4)
qed

text \<open>
  C6: for every window, \<open>get_pending_downloads\<close> returns the urls recorded in the url files
  for the window minus the urls recorded in the download files for the window, read from the
  files at each call. In a registry as the tracker writes it (download files ending with a
  line break, every url filed under its sensing date), once \<open>mark_downloaded\<close> has been
  called, and has returned, for every url discovered in the window,
  \<open>get_pending_downloads\<close> returns the empty set.
\<close>

theorem get_pending_downloads_spec:
  assumes "dwl_ok st" and "url_partitioned st"
    and "mark_each tr local_path_of us st = Inr st'"
    and "recorded Url st start end \<subseteq> set us"
  shows "get_pending_downloads st start end = recorded Url st start end - recorded Dwl st start end
    \<and> get_pending_downloads st' start end = {}"
proof -
  have diff: "get_pending_downloads s start end = recorded Url s start end - recorded Dwl s start end" for s
    by (simp add: get_pending_downloads_def discovered_recorded get_downloaded_urls_recorded
        del: set_map)
  from mark_each_effect [OF assms(1,3)]
  have same: "\<And>d. fs_read st' (Daily Url d) = fs_read st (Daily Url d)"
    and marked: "\<And>u dt. u \<in> set us \<Longrightarrow> clean_key u \<Longrightarrow> extract_sensing_time u = Some dt
          \<Longrightarrow> u \<in> firsts st' (Daily Dwl (date_of dt))"
    by auto
  have "recorded Url st' start end \<subseteq> recorded Dwl st' start end"
  proof
    fix u assume "u \<in> recorded Url st' start end"
    then have u: "u \<in> recorded Url st start end" by (simp add: recorded_def same)
    then obtain d p where d: "in_dates (map_option date_of start) (map_option date_of end) d"
      and r: "(u, p) \<in> set (read_pairs (fs_read st (Daily Url d)))"
      and c: "start = None \<and> end = None \<or> in_bounds start end u"
      by (auto simp: recorded_def)
    from assms(2) r obtain t where t: "extract_sensing_time u = Some t" "date_of t = d"
      by (auto simp: url_partitioned_def)
    then have "u \<noteq> []" using extract_sensing_time_Nil by auto
    then have "clean_key u" using read_pairs_first_clean [OF r] by simp
    moreover have "u \<in> set us" using u assms(4) by auto
    ultimately have "u \<in> firsts st' (Daily Dwl d)" using marked t by auto
    then obtain p' where "(u, p') \<in> set (read_pairs (fs_read st' (Daily Dwl d)))"
      by (auto simp: firsts_def)
    then show "u \<in> recorded Dwl st' start end" using d c by (auto simp: recorded_def)
  qed
  then show ?thesis using diff by auto
qed

end
